theory Spec2Isabelle
  imports Main "HOL-Library.Char_ord" "HOL-Library.List_Lexorder" "HOL-Library.Multiset"
    "HOL-Library.FSet" "HOL-Library.Finite_Map"
begin

section \<open>Strings of the Go standard library used by mud.go\<close>

text \<open>
  A Go string is a sequence of bytes: \<^typ>\<open>string\<close>. The comparison \<open><\<close> of Go strings is
  the lexicographic order of the bytes, which is the order of \<^typ>\<open>char list\<close> given by
  the two library theories imported above.
\<close>

type_synonym Path = string

text \<open>\<open>strings.IndexByte\<close>: the index of the first occurrence of the byte, or \<open>-1\<close>.\<close>

fun IndexByte :: "string \<Rightarrow> char \<Rightarrow> int" where
  "IndexByte [] c = - 1"
| "IndexByte (x # xs) c =
     (if x = c then 0
      else (let i = IndexByte xs c in if i = - 1 then - 1 else i + 1))"

definition HasPrefix :: "string \<Rightarrow> string \<Rightarrow> bool" where
  "HasPrefix s p = (length p \<le> length s \<and> take (length p) s = p)"

definition HasSuffix :: "string \<Rightarrow> string \<Rightarrow> bool" where
  "HasSuffix s p = (length p \<le> length s \<and> drop (length s - length p) s = p)"

definition TrimPrefix :: "string \<Rightarrow> string \<Rightarrow> string" where
  "TrimPrefix s p = (if HasPrefix s p then drop (length p) s else s)"

text \<open>\<open>strings.Split(s, sep)\<close> for a separator of one byte: the pieces of \<open>s\<close> between the
  occurrences of the separator, one more piece than there are separators.\<close>

fun Split :: "string \<Rightarrow> char \<Rightarrow> string list" where
  "Split [] sep = [[]]"
| "Split (x # xs) sep =
     (if x = sep then [] # Split xs sep
      else (case Split xs sep of [] \<Rightarrow> [[x]] | y # ys \<Rightarrow> (x # y) # ys))"

text \<open>\<open>strings.Join(elems, sep)\<close>.\<close>

fun Join :: "string list \<Rightarrow> string \<Rightarrow> string" where
  "Join [] sep = []"
| "Join [x] sep = x"
| "Join (x # y # ys) sep = x @ sep @ Join (y # ys) sep"

text \<open>
  \<open>fmt.Sprintf("%q", s)\<close> is library code (\<open>strconv.Quote\<close>). On a string of printable ASCII
  bytes it puts the string between double quotes, with a backslash before each double quote
  and each backslash. What it prints for other strings (escapes of control bytes and of
  runes that are not printable) is left to the parameter \<open>other\<close>.
\<close>

definition printable_ascii :: "char \<Rightarrow> bool" where
  "printable_ascii c = (CHR 0x20 \<le> c \<and> c \<le> CHR 0x7E)"

definition Sprintf_q :: "(string \<Rightarrow> string) \<Rightarrow> string \<Rightarrow> string" where
  "Sprintf_q other s =
     (if list_all printable_ascii s
      then [CHR 0x22]
           @ concat (map (\<lambda>c. if c = CHR 0x22 \<or> c = CHR 0x5C then [CHR 0x5C, c] else [c]) s)
           @ [CHR 0x22]
      else other s)"

section \<open>The loader's data: \<open>packages.Module\<close> and \<open>packages.Package\<close>\<close>

text \<open>
  The fields of \<open>golang.org/x/tools/go/packages\<close> that mud.go reads. A nil pointer is
  \<^const>\<open>None\<close>. \<open>Imports\<close> is a Go map from import path to package; the list holds its
  entries in the order in which one \<open>range\<close> over it yields them.
\<close>

datatype PkgModule = PkgModule
  (mod_Path: string)
  (mod_Version: string)
  (mod_Replace: "PkgModule option")
  (mod_Dir: string)
  (mod_Error: "string option")

datatype Package = Package
  (pkg_Name: string)
  (pkg_PkgPath: string)
  (pkg_Errors: "string list")
  (pkg_Imports: "(string \<times> Package) list")
  (pkg_Module: "PkgModule option")

section \<open>The Builtin Classifier\<close>

text \<open>
  \<^verbatim>\<open>
  func isBuiltin(pkg *packages.Package) bool {
      importPath := pkg.PkgPath
      i := strings.IndexByte(importPath, '/')
      if i != -1 { importPath = importPath[:i] }
      return strings.IndexByte(importPath, '.') == -1
  }
  \<close>
\<close>

definition isBuiltin :: "Package \<Rightarrow> bool" where
  "isBuiltin pkg =
     (let importPath = pkg_PkgPath pkg;
          i = IndexByte importPath (CHR ''/'');
          importPath = (if i \<noteq> - 1 then take (nat i) importPath else importPath)
      in IndexByte importPath (CHR ''.'') = - 1)"

section \<open>Rendering a path as a Nix attribute path\<close>

text \<open>
  \<^verbatim>\<open>
  var nixIdentRe = regexp.MustCompile(`^[a-zA-Z\_][a-zA-Z0-9\_\'\-]*$`)
  var nixKeyword = map[string]bool{ "if": true, "then": true, "else": true, "assert": true,
      "with": true, "let": true, "in": true, "rec": true, "inherit": true, "or": true }
  \<close>
  The definition \<open>nixIdentRe\<close> below is \<open>nixIdentRe.MatchString\<close>: the whole string is one byte of the first
  class followed by bytes of the second class (in Go, \<open>$\<close> without the multi-line flag
  matches at the end of the text only).
\<close>

definition ident_first :: "char \<Rightarrow> bool" where
  "ident_first c =
     ((CHR ''a'' \<le> c \<and> c \<le> CHR ''z'') \<or> (CHR ''A'' \<le> c \<and> c \<le> CHR ''Z'') \<or> c = CHR ''_'')"

definition ident_rest :: "char \<Rightarrow> bool" where
  "ident_rest c =
     ((CHR ''a'' \<le> c \<and> c \<le> CHR ''z'') \<or> (CHR ''A'' \<le> c \<and> c \<le> CHR ''Z'')
      \<or> (CHR ''0'' \<le> c \<and> c \<le> CHR ''9'') \<or> c = CHR ''_'' \<or> c = CHR 0x27 \<or> c = CHR ''-'')"

definition nixIdentRe :: "string \<Rightarrow> bool" where
  "nixIdentRe s = (case s of [] \<Rightarrow> False | c # cs \<Rightarrow> ident_first c \<and> list_all ident_rest cs)"

definition nixKeyword :: "string \<Rightarrow> bool" where
  "nixKeyword name =
     (name \<in> set [''if'', ''then'', ''else'', ''assert'', ''with'', ''let'', ''in'', ''rec'',
                   ''inherit'', ''or''])"

text \<open>
  \<^verbatim>\<open>
  func (p Path) NixAttr() string {
      names := strings.Split(string(p), "/")
      for i, name := range names {
          if !nixIdentRe.MatchString(name) || nixKeyword[name] {
              names[i] = fmt.Sprintf("%q", name)
          }
      }
      return strings.Join(names, ".")
  }
  \<close>
  The loop runs over the indices of \<open>names\<close> and updates the slice in place.
\<close>

definition NixAttr_step :: "(string \<Rightarrow> string) \<Rightarrow> nat \<Rightarrow> string list \<Rightarrow> string list" where
  "NixAttr_step other i names =
     (let name = names ! i
      in if \<not> nixIdentRe name \<or> nixKeyword name
         then names[i := Sprintf_q other name] else names)"

definition NixAttr :: "(string \<Rightarrow> string) \<Rightarrow> Path \<Rightarrow> string" where
  "NixAttr other p =
     (let names = Split p (CHR ''/'');
          names = fold (NixAttr_step other) [0..<length names] names
      in Join names ''.'')"

section \<open>Modules, package sets and the registry\<close>

text \<open>
  \<^verbatim>\<open>
  type PackageSet map[Path]struct{}
  func (s PackageSet) Add(p Path) { s[p] = struct{}{} }
  \<close>
  A Go map whose values carry nothing is the finite set of its keys.
\<close>

type_synonym PackageSet = "Path fset"

definition Add :: "PackageSet \<Rightarrow> Path \<Rightarrow> PackageSet" where
  "Add s p = finsert p s"

text \<open>
  \<^verbatim>\<open>
  type Module struct {
      Path    Path
      Version string
      Dir     string
      ReplacePath string
      Deps map[*Module]PackageSet
  }
  \<close>
  \<open>Deps\<close> is keyed by pointers to modules. A pointer is an address (an index into the
  heap of module records below), so that two records with equal fields are still two
  keys.
\<close>

type_synonym addr = nat

record Module =
  Path :: Path
  Version :: string
  Dir :: string
  ReplacePath :: string
  Deps :: "(addr, PackageSet) fmap"

text \<open>
  The state of the walk: the module records allocated so far, and the registry
  \<open>modules := make(map[Path]*Module)\<close>.
\<close>

record state =
  heap :: "Module list"
  modules :: "(Path, addr) fmap"

definition init_state :: state where
  "init_state = \<lparr>heap = [], modules = fmempty\<rparr>"

text \<open>The ways in which the run stops early: the panics of the source, and the panic of
  the Go runtime on a nil pointer.\<close>

datatype error =
    PkgErrors "string list"
  | PackageWithoutModule string
  | NilDereference
  | ModuleWithoutDir Path
  | ArchiveError string
  | WriteError string

text \<open>
  \<^verbatim>\<open>
  func pkgErrors(pkg *packages.Package) error {
      var errs error
      for _, err := range pkg.Errors { multierr.AppendInto(&errs, err) }
      if pkg.Module != nil && pkg.Module.Error != nil {
          multierr.AppendInto(&errs, errors.New(pkg.Module.Error.Err))
      }
      return errs
  }
  \<close>
  The combined error is the list of the errors appended; \<open>nil\<close> is the empty list.
\<close>

definition pkgErrors :: "Package \<Rightarrow> string list" where
  "pkgErrors pkg =
     pkg_Errors pkg
     @ (case pkg_Module pkg of
          None \<Rightarrow> []
        | Some pm \<Rightarrow> (case mod_Error pm of None \<Rightarrow> [] | Some e \<Rightarrow> [e]))"

text \<open>
  \<^verbatim>\<open>
  func (m *Module) Dep(d *Module) PackageSet {
      pkgs := m.Deps[d]
      if pkgs == nil { pkgs = make(PackageSet); m.Deps[d] = pkgs }
      return pkgs
  }
  \<close>
  The set returned is the one stored at \<open>m.Deps[d]\<close>: a \<open>PackageSet\<close> is a reference, and
  \<open>depSet.Add(p)\<close> on the result changes the entry of \<open>m.Deps\<close>. \<^term>\<open>Dep m d\<close> is the
  module after the call, and \<open>Add_at\<close> is \<open>Add\<close> on the set stored at \<open>d\<close>.
\<close>

definition Dep :: "Module \<Rightarrow> addr \<Rightarrow> Module" where
  "Dep m d =
     (case fmlookup (Deps m) d of
        None \<Rightarrow> m\<lparr>Deps := fmupd d {||} (Deps m)\<rparr>
      | Some pkgs \<Rightarrow> m)"

definition Add_at :: "Module \<Rightarrow> addr \<Rightarrow> Path \<Rightarrow> Module" where
  "Add_at m d p =
     (case fmlookup (Deps m) d of
        None \<Rightarrow> m
      | Some pkgs \<Rightarrow> m\<lparr>Deps := fmupd d (Add pkgs p) (Deps m)\<rparr>)"

section \<open>The walk over the packages\<close>

text \<open>
  The record made for a module that is not yet in the registry (lines 119 to 131):
  \<^verbatim>\<open>
  mod = &Module{ Path: Path(pkg.Module.Path), Version: pkg.Module.Version,
                 Dir: pkg.Module.Dir, Deps: make(map[*Module]PackageSet) }
  if pkg.Module.Replace != nil {
      mod.ReplacePath = pkg.Module.Replace.Path
      mod.Version = pkg.Module.Replace.Version
  }
  mod.Version = strings.TrimPrefix(mod.Version, "v")
  \<close>
\<close>

definition new_Module :: "PkgModule \<Rightarrow> Module" where
  "new_Module pm =
     (let m = \<lparr>Path = mod_Path pm, Version = mod_Version pm, Dir = mod_Dir pm,
               ReplacePath = [], Deps = fmempty\<rparr>;
          m = (case mod_Replace pm of
                 None \<Rightarrow> m
               | Some r \<Rightarrow> m\<lparr>ReplacePath := mod_Path r, Version := mod_Version r\<rparr>)
      in m\<lparr>Version := TrimPrefix (Version m) ''v''\<rparr>)"

text \<open>
  \<^verbatim>\<open>
  mod := modules[Path(pkg.Module.Path)]
  if mod == nil { mod = ...; modules[mod.Path] = mod }
  \<close>
  The result is the address of the module's record and the state after the lookup.
\<close>

definition lookup_or_create :: "state \<Rightarrow> PkgModule \<Rightarrow> addr \<times> state" where
  "lookup_or_create s pm =
     (case fmlookup (modules s) (mod_Path pm) of
        Some a \<Rightarrow> (a, s)
      | None \<Rightarrow>
          (let m = new_Module pm; a = length (heap s)
           in (a, \<lparr>heap = heap s @ [m], modules = fmupd (Path m) a (modules s)\<rparr>)))"

text \<open>
  One iteration of the loop over the imports (lines 135 to 147), for the importer's
  record at address \<open>a\<close>:
  \<^verbatim>\<open>
  if isBuiltin(dep) { continue }
  depMod := modules[Path(dep.Module.Path)]
  if depMod.Path == mod.Path { continue }
  depSet := mod.Dep(depMod)
  depSet.Add(Path(dep.PkgPath))
  \<close>
  \<open>dep.Module.Path\<close> panics when \<open>dep.Module\<close> is nil, and \<open>depMod.Path\<close> panics when the
  registry has no record for the module.
\<close>

definition add_import :: "state \<Rightarrow> addr \<Rightarrow> Package \<Rightarrow> error + state" where
  "add_import s a dep =
     (if isBuiltin dep then Inr s
      else (case pkg_Module dep of
              None \<Rightarrow> Inl NilDereference
            | Some dm \<Rightarrow>
                (case fmlookup (modules s) (mod_Path dm) of
                   None \<Rightarrow> Inl NilDereference
                 | Some b \<Rightarrow>
                     if Path (heap s ! b) = Path (heap s ! a) then Inr s
                     else Inr (s\<lparr>heap := (heap s)
                            [a := Add_at (Dep (heap s ! a) b) b (pkg_PkgPath dep)]\<rparr>))))"

fun add_imports :: "state \<Rightarrow> addr \<Rightarrow> Package list \<Rightarrow> error + state" where
  "add_imports s a [] = Inr s"
| "add_imports s a (dep # deps) =
     (case add_import s a dep of Inl e \<Rightarrow> Inl e | Inr s' \<Rightarrow> add_imports s' a deps)"

text \<open>
  The function that \<open>packages.Visit\<close> calls on each package after its imports (lines 96 to
  148). \<open>Visit\<close> calls it on builtin packages too; they return at once.
\<close>

definition post :: "state \<Rightarrow> Package \<Rightarrow> error + state" where
  "post s pkg =
     (if isBuiltin pkg then Inr s
      else if pkgErrors pkg \<noteq> [] then Inl (PkgErrors (pkgErrors pkg))
      else (case pkg_Module pkg of
              None \<Rightarrow>
                if pkg_Name pkg = ''main'' \<and> HasSuffix (pkg_PkgPath pkg) ''.test'' then Inr s
                else if HasSuffix (pkg_PkgPath pkg) ''_test'' then Inr s
                else Inl (PackageWithoutModule (pkg_PkgPath pkg))
            | Some pm \<Rightarrow>
                (case lookup_or_create s pm of
                   (a, s') \<Rightarrow> add_imports s' a (map snd (pkg_Imports pkg)))))"

text \<open>
  \<open>packages.Visit\<close> is library code: it calls \<^const>\<open>post\<close> once on every package reachable
  from the roots, each after its imports. The walk takes the packages in the order of these
  calls and stops at the first panic.
\<close>

fun walk :: "state \<Rightarrow> Package list \<Rightarrow> error + state" where
  "walk s [] = Inr s"
| "walk s (pkg # pkgs) = (case post s pkg of Inl e \<Rightarrow> Inl e | Inr s' \<Rightarrow> walk s' pkgs)"

section \<open>The descriptors\<close>

text \<open>
  What the run takes from outside the repository:
  \<^item> \<open>path_Join\<close> is \<open>path.Join\<close> of the Go library;
  \<^item> \<open>hashDir dir\<close> is the outcome of \<open>archive.CopyPath(archive.WriteDump(h), dir)\<close>
    followed by \<open>base32.Encode(h.Sum(nil))\<close>: the error, or the digest as text;
  \<^item> \<open>quote_other\<close> is \<open>%q\<close> outside printable ASCII (see \<^const>\<open>Sprintf_q\<close>);
  \<^item> \<open>fs_write dir name data\<close> is the error of \<open>writeFile\<close>, if any: what its filesystem
    calls (\<open>os.MkdirAll\<close>, \<open>tempfile.Open\<close>, \<open>Write\<close>, \<open>os.Remove\<close>, \<open>tempfile.Commit\<close>,
    \<open>os.Rename\<close>) answer;
  \<^item> the order in which each \<open>range\<close> over a Go map yields the keys, which Go leaves open:
    \<open>ord_modules\<close> for the registry, \<open>ord_deps p\<close> for \<open>Deps\<close> of the module \<open>p\<close>, and
    \<open>ord_pkgs p d\<close> for the package set that the module \<open>p\<close> holds at the key \<open>d\<close>.
\<close>

record env =
  path_Join :: "string \<Rightarrow> string \<Rightarrow> string"
  hashDir :: "string \<Rightarrow> string + string"
  quote_other :: "string \<Rightarrow> string"
  fs_write :: "string \<Rightarrow> string \<Rightarrow> string \<Rightarrow> string option"
  ord_modules :: "Path set \<Rightarrow> Path list"
  ord_deps :: "Path \<Rightarrow> addr set \<Rightarrow> addr list"
  ord_pkgs :: "Path \<Rightarrow> addr \<Rightarrow> Path set \<Rightarrow> Path list"

text \<open>An order of iteration yields every key of the map once.\<close>

definition range_order :: "('a set \<Rightarrow> 'a list) \<Rightarrow> bool" where
  "range_order f = (\<forall>S. finite S \<longrightarrow> set (f S) = S \<and> distinct (f S))"

definition valid_orders :: "'x env_scheme \<Rightarrow> bool" where
  "valid_orders e =
     (range_order (ord_modules e) \<and> (\<forall>p. range_order (ord_deps e p))
      \<and> (\<forall>p d. range_order (ord_pkgs e p d)))"

text \<open>
  \<open>sort.Slice(xs, func(i, j int) bool { return xs[i] < xs[j] })\<close>: the slice in ascending
  order of its strings.
\<close>

definition sortPaths :: "Path list \<Rightarrow> Path list" where
  "sortPaths xs = sort xs"

text \<open>
  \<^verbatim>\<open>
  func (m *Module) Imports() []Path {
      var imports []Path
      for _, dep := range m.Deps { for pkg := range dep { imports = append(imports, pkg) } }
      sortPaths(imports)
      return imports
  }
  \<close>
\<close>

definition Imports :: "'x env_scheme \<Rightarrow> Module \<Rightarrow> Path list" where
  "Imports e m =
     sortPaths (concat (map (\<lambda>d. case fmlookup (Deps m) d of
                                    None \<Rightarrow> []
                                  | Some dep \<Rightarrow> ord_pkgs e (Path m) d (fset dep))
                            (ord_deps e (Path m) (fmdom' (Deps m)))))"

text \<open>
  \<^verbatim>\<open>
  func (m *Module) ModSHA256() string {
      if m.Dir == "" { panic(fmt.Errorf("module without a dir: %s", m.Path)) }
      h := sha256.New()
      if err := archive.CopyPath(archive.WriteDump(h), m.Dir); err != nil { panic(err) }
      return base32.Encode(h.Sum(nil))
  }
  \<close>
\<close>

definition ModSHA256 :: "'x env_scheme \<Rightarrow> Module \<Rightarrow> error + string" where
  "ModSHA256 e m =
     (if Dir m = [] then Inl (ModuleWithoutDir (Path m))
      else (case hashDir e (Dir m) of Inl err \<Rightarrow> Inl (ArchiveError err) | Inr digest \<Rightarrow> Inr digest))"

definition IsExternal :: "Module \<Rightarrow> bool" where
  "IsExternal m = (\<not> HasPrefix (Path m) ''example.com/'')"

text \<open>
  \<open>tmpl.Execute(&buffer, mod)\<close>: the text of the template, with \<open>.Path\<close>, \<open>.Version\<close>,
  \<open>.ModSHA256\<close> and \<open>.Imports\<close> evaluated in this order. The \<open>deps\<close> block is there when
  \<open>.Imports\<close> is not empty; \<open>{{-\<close> removes the line break before it. A panic of
  \<open>ModSHA256\<close> ends the execution with that error.
\<close>

definition nl :: string where
  "nl = [CHR 0x0A]"

definition dq :: string where
  "dq = [CHR 0x22]"

definition Execute :: "'x env_scheme \<Rightarrow> Module \<Rightarrow> error + string" where
  "Execute e m =
     (case ModSHA256 e m of
        Inl err \<Rightarrow> Inl err
      | Inr digest \<Rightarrow>
          Inr (''# generator //tools/mud (DO NOT EDIT)'' @ nl
               @ ''{ platform, pkgs, ... }:'' @ nl
               @ nl
               @ ''platform.buildGo.external rec {'' @ nl
               @ ''  path = '' @ dq @ Path m @ dq @ '';'' @ nl
               @ ''  src = platform.lib.fetchGoModule {'' @ nl
               @ ''    inherit path;'' @ nl
               @ ''    version = '' @ dq @ Version m @ dq @ '';'' @ nl
               @ ''    sha256 = '' @ dq @ digest @ dq @ '';'' @ nl
               @ ''  };''
               @ (let imports = Imports e m
                  in if imports = [] then []
                     else nl @ ''  deps = with platform.third_party; [''
                          @ concat (map (\<lambda>p. nl @ ''    gopkgs.'' @ NixAttr (quote_other e) p)
                                     imports)
                          @ nl @ ''  ];'')
               @ nl @ ''}'' @ nl))"

text \<open>What a run leaves behind: the files written, in order (directory, name, bytes), and
  how the process ended.\<close>

datatype outcome = Done | Exit1 string | Panic error

record run_output =
  files :: "(string \<times> string \<times> string) list"
  status :: outcome

text \<open>The loop over the sorted module paths (lines 158 to 187).\<close>

fun emit_loop ::
  "'x env_scheme \<Rightarrow> state \<Rightarrow> Path list \<Rightarrow> (string \<times> string \<times> string) list \<Rightarrow> run_output" where
  "emit_loop e s [] written = \<lparr>files = written, status = Done\<rparr>"
| "emit_loop e s (p # paths) written =
     (case fmlookup (modules s) p of
        None \<Rightarrow> \<lparr>files = written, status = Panic NilDereference\<rparr>
      | Some a \<Rightarrow>
          (let m = heap s ! a in
           if \<not> IsExternal m then emit_loop e s paths written
           else
             (let outDir = path_Join e ''third_party/gopkgs'' (Path m) in
              if ReplacePath m \<noteq> [] \<and> hd (ReplacePath m) = CHR ''.'' then
                (if ReplacePath m \<noteq> ''./'' @ outDir
                 then \<lparr>files = written,
                       status = Exit1 (''replace points at //'' @ ReplacePath m
                                       @ '', expected it to point at //'' @ outDir @ nl)\<rparr>
                 else emit_loop e s paths written)
              else
                (case Execute e m of
                   Inl err \<Rightarrow> \<lparr>files = written, status = Panic err\<rparr>
                 | Inr data \<Rightarrow>
                     (case fs_write e outDir ''default.nix'' data of
                        Some err \<Rightarrow> \<lparr>files = written, status = Panic (WriteError err)\<rparr>
                      | None \<Rightarrow>
                          emit_loop e s paths (written @ [(outDir, ''default.nix'', data)]))))))"

text \<open>Lines 151 to 157, and the loop.\<close>

definition emit :: "'x env_scheme \<Rightarrow> state \<Rightarrow> run_output" where
  "emit e s = emit_loop e s (sortPaths (ord_modules e (fmdom' (modules s)))) []"

text \<open>The run, from the packages in the order of the walk. No file is written before the
  walk has ended.\<close>

definition run :: "'x env_scheme \<Rightarrow> Package list \<Rightarrow> run_output" where
  "run e pkgs =
     (case walk init_state pkgs of
        Inl err \<Rightarrow> \<lparr>files = [], status = Panic err\<rparr>
      | Inr s \<Rightarrow> emit e s)"

section \<open>Predicates of the statements\<close>

text \<open>The fields of a module record that are set when it is made and never assigned
  again.\<close>

definition coordinates :: "Module \<Rightarrow> Path \<times> string \<times> string \<times> string" where
  "coordinates m = (Path m, Version m, Dir m, ReplacePath m)"

text \<open>
  The registry is well formed: each of its entries points to a record of the heap that
  has the entry's key as its path, every record of the heap is the entry of its path, and
  the keys of every \<open>Deps\<close> are records of the heap.
\<close>

definition wf_state :: "state \<Rightarrow> bool" where
  "wf_state s =
     ((\<forall>p a. fmlookup (modules s) p = Some a \<longrightarrow> a < length (heap s) \<and> Path (heap s ! a) = p)
      \<and> (\<forall>a < length (heap s). fmlookup (modules s) (Path (heap s ! a)) = Some a)
      \<and> (\<forall>a < length (heap s). \<forall>b \<in> fmdom' (Deps (heap s ! a)). b < length (heap s)))"

text \<open>No module of the registry is a key of its own \<open>Deps\<close>.\<close>

definition no_self_edge :: "state \<Rightarrow> bool" where
  "no_self_edge s =
     (\<forall>p a. fmlookup (modules s) p = Some a \<longrightarrow>
        a < length (heap s) \<and> fmlookup (Deps (heap s ! a)) a = None)"

section \<open>A workspace to evaluate the definitions on\<close>

text \<open>
  An environment in which \<open>path.Join\<close> puts a \<open>/\<close> between its two clean arguments, every
  directory hashes to the same digest, every write succeeds and every \<open>range\<close> yields the
  keys in ascending order; and the packages of the scenario of the specification: the
  packages \<open>a\<close> and \<open>b\<close> of the module \<open>alpha.example/foo\<close> both import the package \<open>x\<close> of
  the module \<open>beta.example/bar\<close>.
\<close>

definition example_env :: env where
  "example_env =
     \<lparr>path_Join = (\<lambda>a b. a @ ''/'' @ b), hashDir = (\<lambda>d. Inr ''0digest''),
      quote_other = (\<lambda>s. s), fs_write = (\<lambda>d n b. None),
      ord_modules = sorted_list_of_set, ord_deps = (\<lambda>p. sorted_list_of_set),
      ord_pkgs = (\<lambda>p d. sorted_list_of_set)\<rparr>"

definition example_beta :: PkgModule where
  "example_beta = PkgModule ''beta.example/bar'' ''v1.2.0'' None ''/cache/bar@v1.2.0'' None"

definition example_alpha :: PkgModule where
  "example_alpha = PkgModule ''alpha.example/foo'' ''v0.3.0'' None ''/cache/foo@v0.3.0'' None"

definition example_fmt :: Package where
  "example_fmt = Package ''fmt'' ''fmt'' [] [] None"

definition example_x :: Package where
  "example_x =
     Package ''x'' ''beta.example/bar/x'' [] [(''fmt'', example_fmt)] (Some example_beta)"

definition example_a :: Package where
  "example_a =
     Package ''a'' ''alpha.example/foo/a'' [] [(''beta.example/bar/x'', example_x)]
       (Some example_alpha)"

definition example_b :: Package where
  "example_b =
     Package ''b'' ''alpha.example/foo/b'' []
       [(''alpha.example/foo/a'', example_a), (''beta.example/bar/x'', example_x)]
       (Some example_alpha)"

text \<open>A package of a module that a replace directive redirects to another module, and the
  record the loader reports for it: \<open>Dir\<close> is the directory of the replacement.\<close>

definition example_forked :: Package where
  "example_forked =
     Package ''foo'' ''a.example/foo'' [] []
       (Some (PkgModule ''a.example/foo'' ''v1.0.0''
          (Some (PkgModule ''b.example/fork'' ''v1.2.0'' None ''/cache/fork@v1.2.0'' None))
          ''/cache/fork@v1.2.0'' None))"

text \<open>Two packages that differ at most in the order in which \<open>range\<close> yields their imports, and
  two walks that visit the same packages, in any order.\<close>

definition same_package :: "Package \<Rightarrow> Package \<Rightarrow> bool" where
  "same_package p q =
     (pkg_Name p = pkg_Name q \<and> pkg_PkgPath p = pkg_PkgPath q \<and> pkg_Errors p = pkg_Errors q
      \<and> pkg_Module p = pkg_Module q \<and> set (pkg_Imports p) = set (pkg_Imports q))"

definition same_graph :: "Package list \<Rightarrow> Package list \<Rightarrow> bool" where
  "same_graph ps qs =
     ((\<forall>p \<in> set ps. \<exists>q \<in> set qs. same_package p q)
      \<and> (\<forall>q \<in> set qs. \<exists>p \<in> set ps. same_package p q))"

text \<open>The loader reports one record for a module: packages of the same module path carry
  the same \<open>packages.Module\<close>.\<close>

definition one_record_per_module :: "Package list \<Rightarrow> bool" where
  "one_record_per_module ps =
     (\<forall>p \<in> set ps. \<forall>q \<in> set ps. \<forall>pm qm.
        pkg_Module p = Some pm \<and> pkg_Module q = Some qm \<and> mod_Path pm = mod_Path qm
        \<longrightarrow> pm = qm)"

text \<open>The dependency edges of a state, by the paths of the modules: the importer, the module
  imported from, and the package imported. And the edges that visiting a package adds.\<close>

definition edges :: "state \<Rightarrow> (Path \<times> Path \<times> Path) set" where
  "edges s =
     {(p, d, q). \<exists>a b dep. fmlookup (modules s) p = Some a
        \<and> fmlookup (Deps (heap s ! a)) b = Some dep \<and> q |\<in>| dep \<and> d = Path (heap s ! b)}"

definition import_edges :: "Path \<Rightarrow> Package list \<Rightarrow> (Path \<times> Path \<times> Path) set" where
  "import_edges p deps =
     {(p', d, q). p' = p \<and> (\<exists>dep dm. dep \<in> set deps \<and> \<not> isBuiltin dep
        \<and> pkg_Module dep = Some dm \<and> d = mod_Path dm \<and> d \<noteq> p \<and> q = pkg_PkgPath dep)}"

definition pkg_edges :: "Package \<Rightarrow> (Path \<times> Path \<times> Path) set" where
  "pkg_edges pkg =
     (if isBuiltin pkg then {}
      else (case pkg_Module pkg of
              None \<Rightarrow> {}
            | Some pm \<Rightarrow> import_edges (mod_Path pm) (map snd (pkg_Imports pkg))))"

text \<open>A package of a module that a replace directive redirects to the conventional place in
  the repository, and one of a module redirected to another place in the repository.\<close>

definition example_vendored :: Package where
  "example_vendored =
     Package ''foo'' ''alpha.example/foo'' [] []
       (Some (PkgModule ''alpha.example/foo'' ''v0.3.0''
          (Some (PkgModule ''./third_party/gopkgs/alpha.example/foo'' [] None
                   ''/src/third_party/gopkgs/alpha.example/foo'' None))
          ''/src/third_party/gopkgs/alpha.example/foo'' None))"

definition example_misplaced :: Package where
  "example_misplaced =
     Package ''foo'' ''alpha.example/foo'' [] []
       (Some (PkgModule ''alpha.example/foo'' ''v0.3.0''
          (Some (PkgModule ''./vendor/foo'' [] None ''/src/vendor/foo'' None))
          ''/src/vendor/foo'' None))"

text \<open>A package path names one package, owned by one module: imports of the visited packages
  that have the same package path have the same module path.\<close>

definition owned_by_one_module :: "Package list \<Rightarrow> bool" where
  "owned_by_one_module pkgs =
     (\<forall>pkg \<in> set pkgs. \<forall>pkg' \<in> set pkgs.
        \<forall>dep \<in> snd ` set (pkg_Imports pkg). \<forall>dep' \<in> snd ` set (pkg_Imports pkg').
          pkg_PkgPath dep = pkg_PkgPath dep'
          \<longrightarrow> map_option mod_Path (pkg_Module dep) = map_option mod_Path (pkg_Module dep'))"

text \<open>A second package of \<open>beta.example/bar\<close>, and a package of \<open>alpha.example/foo\<close> that
  imports both.\<close>

definition example_y :: Package where
  "example_y = Package ''y'' ''beta.example/bar/y'' [] [] (Some example_beta)"

definition example_c :: Package where
  "example_c =
     Package ''c'' ''alpha.example/foo/c'' []
       [(''beta.example/bar/y'', example_y), (''beta.example/bar/x'', example_x)]
       (Some example_alpha)"

text \<open>A package at which the walk stops whatever the registry holds: it is not builtin, and it
  carries an error or has no module and is not one of the two kinds of test package.\<close>

definition fatal :: "Package \<Rightarrow> bool" where
  "fatal pkg =
     (\<not> isBuiltin pkg
      \<and> (pkgErrors pkg \<noteq> []
           \<or> (pkg_Module pkg = None
               \<and> \<not> (pkg_Name pkg = ''main'' \<and> HasSuffix (pkg_PkgPath pkg) ''.test'')
               \<and> \<not> HasSuffix (pkg_PkgPath pkg) ''_test'')))"

text \<open>The package \<open>b\<close> with its imports in the other order, and an environment in which
  every \<open>range\<close> yields the keys in descending order.\<close>

definition example_b_reordered :: Package where
  "example_b_reordered =
     Package ''b'' ''alpha.example/foo/b'' []
       [(''beta.example/bar/x'', example_x), (''alpha.example/foo/a'', example_a)]
       (Some example_alpha)"

definition example_env_descending :: env where
  "example_env_descending =
     example_env\<lparr>ord_modules := (\<lambda>S. rev (sorted_list_of_set S)),
                  ord_deps := (\<lambda>p S. rev (sorted_list_of_set S)),
                  ord_pkgs := (\<lambda>p d S. rev (sorted_list_of_set S))\<rparr>"

text \<open>The modules for which the loop renders a descriptor: the external modules of the
  registry that carry no local replace path.\<close>

definition has_descriptor :: "state \<Rightarrow> Path \<Rightarrow> bool" where
  "has_descriptor s p =
     (case fmlookup (modules s) p of
        None \<Rightarrow> False
      | Some a \<Rightarrow> IsExternal (heap s ! a)
          \<and> \<not> (ReplacePath (heap s ! a) \<noteq> [] \<and> hd (ReplacePath (heap s ! a)) = CHR ''.''))"

text \<open>The file written for a module: its directory under the output root, the fixed name, and
  the rendering of the module's record.\<close>

definition descriptor_of :: "'x env_scheme \<Rightarrow> state \<Rightarrow> string \<times> string \<times> string \<Rightarrow> Path \<Rightarrow> bool" where
  "descriptor_of e s file p =
     (\<exists>a data. fmlookup (modules s) p = Some a \<and> Execute e (heap s ! a) = Inr data
        \<and> file = (path_Join e ''third_party/gopkgs'' p, ''default.nix'', data))"

section \<open>Facts about the string functions\<close>

lemma IndexByte_range: "- 1 \<le> IndexByte s c \<and> IndexByte s c < int (length s)"
  by (induction s) (auto simp: Let_def)

lemma IndexByte_none: "IndexByte s c = - 1 \<longleftrightarrow> c \<notin> set s"
proof (induction s)
  case Nil
  show ?case by simp
next
  case (Cons x xs)
  have "- 1 \<le> IndexByte xs c" using IndexByte_range [of xs c] by simp
  then have "IndexByte xs c + 1 \<noteq> - 1" by arith
  with Cons show ?case by (auto simp: Let_def)
qed

lemma IndexByte_takeWhile:
  "c \<in> set s \<Longrightarrow> nat (IndexByte s c) = length (takeWhile (\<lambda>x. x \<noteq> c) s)"
proof (induction s)
  case Nil
  then show ?case by simp
next
  case (Cons x xs)
  show ?case
  proof (cases "x = c")
    case True
    then show ?thesis by simp
  next
    case False
    with Cons.prems have mem: "c \<in> set xs" by simp
    then have ne: "IndexByte xs c \<noteq> - 1" by (simp add: IndexByte_none)
    have "0 \<le> IndexByte xs c" using IndexByte_range [of xs c] ne by arith
    then have "nat (IndexByte xs c + 1) = Suc (nat (IndexByte xs c))" by arith
    with False ne Cons.IH [OF mem] show ?thesis by (simp add: Let_def)
  qed
qed

lemma take_IndexByte:
  "c \<in> set s \<Longrightarrow> take (nat (IndexByte s c)) s = takeWhile (\<lambda>x. x \<noteq> c) s"
  using takeWhile_eq_take [of "\<lambda>x. x \<noteq> c" s] by (simp add: IndexByte_takeWhile)

lemma takeWhile_absent: "c \<notin> set s \<Longrightarrow> takeWhile (\<lambda>x. x \<noteq> c) s = s"
  by (induction s) auto

lemma NixAttr_step_length [simp]: "length (NixAttr_step other i names) = length names"
  by (simp add: NixAttr_step_def Let_def)

lemma NixAttr_fold_prefix:
  "n \<le> length names \<Longrightarrow>
   fold (NixAttr_step other) [0..<n] names =
     map (\<lambda>name. if \<not> nixIdentRe name \<or> nixKeyword name then Sprintf_q other name else name)
       (take n names) @ drop n names"
proof (induction n)
  case 0
  show ?case by simp
next
  case (Suc n)
  let ?r = "\<lambda>name. if \<not> nixIdentRe name \<or> nixKeyword name then Sprintf_q other name else name"
  from Suc.prems have n: "n < length names" by simp
  let ?mid = "map ?r (take n names) @ drop n names"
  have len: "length (map ?r (take n names)) = n" using n by simp
  have nth: "?mid ! n = names ! n"
    using n len by (simp add: nth_append)
  have "fold (NixAttr_step other) [0..<Suc n] names = NixAttr_step other n ?mid"
    using Suc.IH n by simp
  also have "\<dots> = ?mid[n := ?r (names ! n)]"
  proof (cases "\<not> nixIdentRe (names ! n) \<or> nixKeyword (names ! n)")
    case True
    then show ?thesis unfolding NixAttr_step_def Let_def nth by (simp del: list_update_append)
  next
    case False
    have "?mid[n := ?mid ! n] = ?mid" by (rule list_update_id)
    then have "?mid[n := names ! n] = ?mid" unfolding nth .
    with False show ?thesis unfolding NixAttr_step_def Let_def nth
      by (simp del: list_update_append)
  qed
  also have "\<dots> = map ?r (take n names) @ (drop n names)[0 := ?r (names ! n)]"
    using len by (simp add: list_update_append)
  also have "(drop n names)[0 := ?r (names ! n)] = ?r (names ! n) # drop (Suc n) names"
    using n by (simp add: Cons_nth_drop_Suc [symmetric])
  also have "map ?r (take n names) @ ?r (names ! n) # drop (Suc n) names
      = map ?r (take (Suc n) names) @ drop (Suc n) names"
    using n by (simp add: take_Suc_conv_app_nth)
  finally show ?case .
qed

lemma Split_nonempty: "Split s c \<noteq> []"
  by (induction s) (auto split: list.splits)

lemma Join_Split: "Join (Split s c) [c] = s"
proof (induction s)
  case Nil
  show ?case by simp
next
  case (Cons x xs)
  show ?case
  proof (cases "x = c")
    case True
    with Cons Split_nonempty [of xs c] show ?thesis
      by (cases "Split xs c") auto
  next
    case False
    obtain y ys where sp: "Split xs c = y # ys"
      using Split_nonempty [of xs c] by (cases "Split xs c") auto
    with Cons False show ?thesis by (cases ys) auto
  qed
qed

lemma Split_no_sep: "seg \<in> set (Split s c) \<Longrightarrow> c \<notin> set seg"
  by (induction s arbitrary: seg) (auto split: if_splits list.splits)

section \<open>Facts about the walk\<close>

lemma walk_append:
  "walk s (xs @ ys) = (case walk s xs of Inl e \<Rightarrow> Inl e | Inr s' \<Rightarrow> walk s' ys)"
  by (induction xs arbitrary: s) (auto split: sum.splits)

lemma coordinates_Dep [simp]: "coordinates (Dep m d) = coordinates m"
  by (simp add: Dep_def coordinates_def split: option.splits)

lemma coordinates_Add_at [simp]: "coordinates (Add_at m d p) = coordinates m"
  by (simp add: Add_at_def coordinates_def split: option.splits)

lemma nth_list_update_total:
  "xs[a := v] ! c = (if c = a \<and> a < length xs then v else xs ! c)"
  by (cases "a < length xs") (auto simp: list_update_beyond)

lemma add_import_frame:
  assumes "add_import s a dep = Inr s'"
  shows "modules s' = modules s \<and> length (heap s') = length (heap s)
    \<and> coordinates (heap s' ! c) = coordinates (heap s ! c)
    \<and> (c \<noteq> a \<longrightarrow> heap s' ! c = heap s ! c)"
  using assms
  by (auto simp: add_import_def nth_list_update_total split: if_splits option.splits)

lemma add_imports_frame:
  assumes "add_imports s a deps = Inr s'"
  shows "modules s' = modules s \<and> length (heap s') = length (heap s)
    \<and> coordinates (heap s' ! c) = coordinates (heap s ! c)
    \<and> (c \<noteq> a \<longrightarrow> heap s' ! c = heap s ! c)"
  using assms
proof (induction deps arbitrary: s)
  case Nil
  then show ?case by simp
next
  case (Cons dep deps)
  from Cons.prems obtain s1 where 1: "add_import s a dep = Inr s1"
    and 2: "add_imports s1 a deps = Inr s'"
    by (auto split: sum.splits)
  from Cons.IH [OF 2] add_import_frame [OF 1, of c] show ?case by simp
qed

lemma lookup_or_create_frame:
  assumes "lookup_or_create s pm = (a, s')"
  shows "c < length (heap s) \<Longrightarrow> heap s' ! c = heap s ! c"
    and "length (heap s) \<le> length (heap s')"
    and "fmlookup (modules s) p = Some b \<Longrightarrow> fmlookup (modules s') p = Some b"
    and "fmlookup (modules s') (mod_Path pm) = Some a"
  using assms
  by (auto simp: lookup_or_create_def Let_def new_Module_def nth_append
      split: option.splits)

lemma lookup_or_create_new:
  assumes "lookup_or_create s pm = (a, s')"
  shows "length (heap s) \<le> c \<Longrightarrow> c < length (heap s') \<Longrightarrow> heap s' ! c = new_Module pm"
  using assms
  by (auto simp: lookup_or_create_def Let_def nth_append split: option.splits)

lemma post_records:
  assumes "post s pkg = Inr s'"
  shows "length (heap s) \<le> length (heap s')"
    and "c < length (heap s) \<Longrightarrow> coordinates (heap s' ! c) = coordinates (heap s ! c)"
    and "length (heap s) \<le> c \<Longrightarrow> c < length (heap s') \<Longrightarrow>
          \<exists>pm. \<not> isBuiltin pkg \<and> pkg_Module pkg = Some pm
            \<and> coordinates (heap s' ! c) = coordinates (new_Module pm)"
proof -
  show "length (heap s) \<le> length (heap s')"
    using assms lookup_or_create_frame(2) add_imports_frame
    by (fastforce simp: post_def split: if_splits option.splits prod.splits)
  show "coordinates (heap s' ! c) = coordinates (heap s ! c)" if "c < length (heap s)"
    using assms that lookup_or_create_frame(1) add_imports_frame
    by (fastforce simp: post_def split: if_splits option.splits prod.splits)
  show "\<exists>pm. \<not> isBuiltin pkg \<and> pkg_Module pkg = Some pm
            \<and> coordinates (heap s' ! c) = coordinates (new_Module pm)"
    if "length (heap s) \<le> c" "c < length (heap s')"
  proof (cases "isBuiltin pkg \<or> pkg_Module pkg = None")
    case True
    with assms have "s' = s" by (auto simp: post_def split: if_splits)
    with that show ?thesis by simp
  next
    case False
    then obtain pm where pm: "pkg_Module pkg = Some pm" and nb: "\<not> isBuiltin pkg" by auto
    obtain a s1 where l: "lookup_or_create s pm = (a, s1)" by (cases "lookup_or_create s pm")
    with assms pm nb have ai: "add_imports s1 a (map snd (pkg_Imports pkg)) = Inr s'"
      by (auto simp: post_def split: if_splits)
    from add_imports_frame [OF ai, of c] that have "c < length (heap s1)"
      and "coordinates (heap s' ! c) = coordinates (heap s1 ! c)" by auto
    with lookup_or_create_new [OF l that(1)] pm nb show ?thesis by auto
  qed
qed

lemma walk_records:
  assumes "walk s pkgs = Inr s'" and "c < length (heap s')"
  shows "(c < length (heap s) \<and> coordinates (heap s' ! c) = coordinates (heap s ! c))
       \<or> (\<exists>pkg \<in> set pkgs. \<exists>pm. \<not> isBuiltin pkg \<and> pkg_Module pkg = Some pm
            \<and> coordinates (heap s' ! c) = coordinates (new_Module pm))"
  using assms
proof (induction pkgs arbitrary: s)
  case Nil
  then show ?case by simp
next
  case (Cons pkg pkgs)
  from Cons.prems obtain s1 where 1: "post s pkg = Inr s1" and 2: "walk s1 pkgs = Inr s'"
    by (auto split: sum.splits)
  from Cons.IH [OF 2 Cons.prems(2)] show ?case
  proof
    assume a: "c < length (heap s1) \<and> coordinates (heap s' ! c) = coordinates (heap s1 ! c)"
    show ?thesis
    proof (cases "c < length (heap s)")
      case True
      with a post_records(2) [OF 1 True] show ?thesis by simp
    next
      case False
      with a post_records(3) [OF 1, of c] show ?thesis by auto
    qed
  next
    assume "\<exists>pkg \<in> set pkgs. \<exists>pm. \<not> isBuiltin pkg \<and> pkg_Module pkg = Some pm
            \<and> coordinates (heap s' ! c) = coordinates (new_Module pm)"
    then show ?thesis by auto
  qed
qed

lemma TrimPrefix_v:
  "TrimPrefix v ''v'' = (case v of [] \<Rightarrow> [] | c # rest \<Rightarrow> if c = CHR ''v'' then rest else v)"
  by (cases v) (auto simp: TrimPrefix_def HasPrefix_def)

lemma Path_Dep [simp]: "Path (Dep m d) = Path m"
  by (simp add: Dep_def split: option.splits)

lemma Path_Add_at [simp]: "Path (Add_at m d p) = Path m"
  by (simp add: Add_at_def split: option.splits)

lemma Deps_Add_at_Dep:
  "Deps (Add_at (Dep m d) d p) =
     fmupd d (finsert p (case fmlookup (Deps m) d of None \<Rightarrow> {||} | Some pkgs \<Rightarrow> pkgs)) (Deps m)"
  by (simp add: Add_at_def Dep_def Add_def split: option.splits)

lemma Add_at_Dep_eq:
  "Add_at (Dep m d) d p =
     m\<lparr>Deps := fmupd d (finsert p (case fmlookup (Deps m) d of None \<Rightarrow> {||} | Some pkgs \<Rightarrow> pkgs))
                  (Deps m)\<rparr>"
  by (simp add: Add_at_def Dep_def Add_def split: option.splits)

lemma Add_at_Dep_idem:
  "Add_at (Dep (Add_at (Dep m d) d p) d) d p = Add_at (Dep m d) d p"
  by (simp add: Add_at_Dep_eq split: option.splits)

lemma Add_at_Dep_funpow:
  "0 < n \<Longrightarrow> ((\<lambda>m. Add_at (Dep m d) d p) ^^ n) m = Add_at (Dep m d) d p"
proof (induction n)
  case 0
  then show ?case by simp
next
  case (Suc n)
  then show ?case by (cases n) (simp_all add: Add_at_Dep_idem)
qed

lemma wf_init: "wf_state init_state"
  by (simp add: wf_state_def init_state_def)

lemma wf_lookup_or_create:
  assumes "wf_state s" and "lookup_or_create s pm = (a, s')"
  shows "wf_state s'"
proof (cases "fmlookup (modules s) (mod_Path pm)")
  case (Some b)
  with assms show ?thesis by (simp add: lookup_or_create_def)
next
  case None
  let ?m = "new_Module pm"
  have pm: "Path ?m = mod_Path pm" by (simp add: new_Module_def Let_def split: option.splits)
  have dm: "Deps ?m = fmempty" by (simp add: new_Module_def Let_def split: option.splits)
  from None assms(2) have s': "s' = \<lparr>heap = heap s @ [?m], modules = fmupd (Path ?m) (length (heap s)) (modules s)\<rparr>"
    by (auto simp: lookup_or_create_def Let_def)
  from assms(1) have w1: "\<And>p a. fmlookup (modules s) p = Some a \<Longrightarrow> a < length (heap s)"
    and w1': "\<And>p a. fmlookup (modules s) p = Some a \<Longrightarrow> Path (heap s ! a) = p"
    and w2: "\<And>a. a < length (heap s) \<Longrightarrow> fmlookup (modules s) (Path (heap s ! a)) = Some a"
    and w3: "\<And>a b. a < length (heap s) \<Longrightarrow> b \<in> fmdom' (Deps (heap s ! a)) \<Longrightarrow> b < length (heap s)"
    unfolding wf_state_def by blast+
  have 1: "\<forall>p a. fmlookup (modules s') p = Some a \<longrightarrow> a < length (heap s') \<and> Path (heap s' ! a) = p"
    using w1 w1' by (auto simp: s' nth_append less_Suc_eq split: if_splits)
  have 2: "\<forall>a < length (heap s'). fmlookup (modules s') (Path (heap s' ! a)) = Some a"
  proof (intro allI impI)
    fix a assume "a < length (heap s')"
    then consider "a < length (heap s)" | "a = length (heap s)" by (auto simp: s' less_Suc_eq)
    then show "fmlookup (modules s') (Path (heap s' ! a)) = Some a"
    proof cases
      case 1
      with w2 [OF 1] None pm show ?thesis by (auto simp: s' nth_append)
    next
      case 2
      then show ?thesis by (simp add: s')
    qed
  qed
  have 3: "\<forall>a < length (heap s'). \<forall>b \<in> fmdom' (Deps (heap s' ! a)). b < length (heap s')"
  proof (intro allI impI ballI)
    fix a b assume a: "a < length (heap s')" and b: "b \<in> fmdom' (Deps (heap s' ! a))"
    from a consider "a < length (heap s)" | "a = length (heap s)" by (auto simp: s' less_Suc_eq)
    then show "b < length (heap s')"
    proof cases
      case 1
      with b w3 [OF 1, of b] show ?thesis by (auto simp: s' nth_append)
    next
      case 2
      with b dm show ?thesis by (simp add: s')
    qed
  qed
  from 1 2 3 show ?thesis unfolding wf_state_def by blast
qed

lemma wf_add_import:
  assumes "wf_state s" and "add_import s a dep = Inr s'"
  shows "wf_state s'"
proof (cases "s' = s")
  case True
  with assms show ?thesis by simp
next
  case False
  with assms(2) obtain dm b where b: "fmlookup (modules s) (mod_Path dm) = Some b"
    and s': "s' = s\<lparr>heap := (heap s)[a := Add_at (Dep (heap s ! a) b) b (pkg_PkgPath dep)]\<rparr>"
    by (auto simp: add_import_def split: if_splits option.splits)
  from assms(1) have w1: "\<And>p a. fmlookup (modules s) p = Some a \<Longrightarrow> a < length (heap s)"
    and w1': "\<And>p a. fmlookup (modules s) p = Some a \<Longrightarrow> Path (heap s ! a) = p"
    and w2: "\<And>a. a < length (heap s) \<Longrightarrow> fmlookup (modules s) (Path (heap s ! a)) = Some a"
    and w3: "\<And>a b. a < length (heap s) \<Longrightarrow> b \<in> fmdom' (Deps (heap s ! a)) \<Longrightarrow> b < length (heap s)"
    unfolding wf_state_def by blast+
  have P: "\<And>c. Path (heap s' ! c) = Path (heap s ! c)"
    by (simp add: s' nth_list_update_total)
  have L: "length (heap s') = length (heap s)" and M: "modules s' = modules s" by (simp_all add: s')
  have D: "\<And>c x. c < length (heap s) \<Longrightarrow> x \<in> fmdom' (Deps (heap s' ! c)) \<Longrightarrow> x < length (heap s)"
    using w3 w1 [OF b] by (auto simp: s' nth_list_update_total Deps_Add_at_Dep split: if_splits)
  show ?thesis unfolding wf_state_def P L M using w1 w1' w2 D by blast
qed

lemma wf_add_imports:
  "wf_state s \<Longrightarrow> add_imports s a deps = Inr s' \<Longrightarrow> wf_state s'"
  by (induction deps arbitrary: s) (auto split: sum.splits dest: wf_add_import)

lemma wf_post:
  assumes "wf_state s" and "post s pkg = Inr s'"
  shows "wf_state s'"
proof (cases "isBuiltin pkg \<or> pkg_Module pkg = None")
  case True
  with assms(2) have "s' = s" by (auto simp: post_def split: if_splits)
  with assms(1) show ?thesis by simp
next
  case False
  then obtain pm where pm: "pkg_Module pkg = Some pm" and nb: "\<not> isBuiltin pkg" by auto
  obtain a s1 where l: "lookup_or_create s pm = (a, s1)" by (cases "lookup_or_create s pm")
  with assms(2) pm nb have ai: "add_imports s1 a (map snd (pkg_Imports pkg)) = Inr s'"
    by (auto simp: post_def split: if_splits)
  from wf_add_imports [OF wf_lookup_or_create [OF assms(1) l] ai] show ?thesis .
qed

lemma wf_walk: "wf_state s \<Longrightarrow> walk s pkgs = Inr s' \<Longrightarrow> wf_state s'"
  by (induction pkgs arbitrary: s) (auto split: sum.splits dest: wf_post)

lemma loopfree_lookup_or_create:
  assumes "\<forall>c < length (heap s). fmlookup (Deps (heap s ! c)) c = None"
    and "lookup_or_create s pm = (a, s')"
  shows "\<forall>c < length (heap s'). fmlookup (Deps (heap s' ! c)) c = None"
  using assms
  by (auto simp: lookup_or_create_def Let_def new_Module_def nth_append less_Suc_eq
      split: option.splits)

lemma loopfree_add_import:
  assumes "\<forall>c < length (heap s). fmlookup (Deps (heap s ! c)) c = None"
    and "add_import s a dep = Inr s'"
  shows "\<forall>c < length (heap s'). fmlookup (Deps (heap s' ! c)) c = None"
  using assms
  by (auto simp: add_import_def nth_list_update_total Deps_Add_at_Dep
      split: if_splits option.splits)

lemma loopfree_add_imports:
  "\<forall>c < length (heap s). fmlookup (Deps (heap s ! c)) c = None \<Longrightarrow>
   add_imports s a deps = Inr s' \<Longrightarrow>
   \<forall>c < length (heap s'). fmlookup (Deps (heap s' ! c)) c = None"
proof (induction deps arbitrary: s)
  case Nil
  then show ?case by simp
next
  case (Cons dep deps)
  from Cons.prems(2) obtain s1 where 1: "add_import s a dep = Inr s1"
    and 2: "add_imports s1 a deps = Inr s'"
    by (auto split: sum.splits)
  from Cons.IH [OF loopfree_add_import [OF Cons.prems(1) 1] 2] show ?case .
qed

lemma loopfree_post:
  assumes "\<forall>c < length (heap s). fmlookup (Deps (heap s ! c)) c = None"
    and "post s pkg = Inr s'"
  shows "\<forall>c < length (heap s'). fmlookup (Deps (heap s' ! c)) c = None"
proof (cases "isBuiltin pkg \<or> pkg_Module pkg = None")
  case True
  with assms(2) have "s' = s" by (auto simp: post_def split: if_splits)
  with assms(1) show ?thesis by simp
next
  case False
  then obtain pm where pm: "pkg_Module pkg = Some pm" and nb: "\<not> isBuiltin pkg" by auto
  obtain a s1 where l: "lookup_or_create s pm = (a, s1)" by (cases "lookup_or_create s pm")
  with assms(2) pm nb have ai: "add_imports s1 a (map snd (pkg_Imports pkg)) = Inr s'"
    by (auto simp: post_def split: if_splits)
  from loopfree_add_imports [OF loopfree_lookup_or_create [OF assms(1) l] ai] show ?thesis .
qed

lemma loopfree_walk:
  "\<forall>c < length (heap s). fmlookup (Deps (heap s ! c)) c = None \<Longrightarrow>
   walk s pkgs = Inr s' \<Longrightarrow>
   \<forall>c < length (heap s'). fmlookup (Deps (heap s' ! c)) c = None"
proof (induction pkgs arbitrary: s)
  case Nil
  then show ?case by simp
next
  case (Cons pkg pkgs)
  from Cons.prems(2) obtain s1 where 1: "post s pkg = Inr s1" and 2: "walk s1 pkgs = Inr s'"
    by (auto split: sum.splits)
  from Cons.IH [OF loopfree_post [OF Cons.prems(1) 1] 2] show ?case .
qed

lemma no_self_edgeI:
  assumes "wf_state s" and "\<forall>c < length (heap s). fmlookup (Deps (heap s ! c)) c = None"
  shows "no_self_edge s"
  using assms unfolding no_self_edge_def wf_state_def by blast

lemma add_imports_modules:
  "add_imports s a deps = Inr s' \<Longrightarrow> modules s' = modules s"
  using add_imports_frame by blast

lemma add_imports_no_nil:
  assumes "\<forall>dep \<in> set deps. \<not> isBuiltin dep \<longrightarrow>
             (\<exists>dm. pkg_Module dep = Some dm \<and> fmlookup (modules s) (mod_Path dm) \<noteq> None)"
  shows "add_imports s a deps \<noteq> Inl NilDereference"
  using assms
proof (induction deps arbitrary: s)
  case Nil
  show ?case by simp
next
  case (Cons dep deps)
  from Cons.prems have ok: "add_import s a dep \<noteq> Inl NilDereference"
    and ex: "\<exists>s1. add_import s a dep = Inr s1"
    by (auto simp: add_import_def split: option.splits)
  then obtain s1 where s1: "add_import s a dep = Inr s1" by blast
  then have "modules s1 = modules s" using add_import_frame by blast
  with Cons.prems have "\<forall>dep \<in> set deps. \<not> isBuiltin dep \<longrightarrow>
             (\<exists>dm. pkg_Module dep = Some dm \<and> fmlookup (modules s1) (mod_Path dm) \<noteq> None)"
    by simp
  from Cons.IH [OF this] s1 show ?case by simp
qed

lemma range_orderD:
  "range_order f \<Longrightarrow> finite S \<Longrightarrow> set (f S) = S"
  "range_order f \<Longrightarrow> finite S \<Longrightarrow> distinct (f S)"
  by (auto simp: range_order_def)

lemma count_concat_map:
  "count (mset (concat (map g ks))) q = (\<Sum>d\<leftarrow>ks. count (mset (g d)) q)"
  by (induction ks) auto

lemma count_distinct_list:
  "distinct xs \<Longrightarrow> count (mset xs) q = (if q \<in> set xs then 1 else 0)"
  by (induction xs) auto

lemma sum_list_indicator:
  "distinct ks \<Longrightarrow> (\<Sum>d\<leftarrow>ks. if P d then 1 else (0::nat)) = card {d \<in> set ks. P d}"
proof (induction ks)
  case Nil
  show ?case by simp
next
  case (Cons k ks)
  then have IH: "(\<Sum>d\<leftarrow>ks. if P d then 1 else (0::nat)) = card {d \<in> set ks. P d}"
    and k: "k \<notin> set ks" by auto
  show ?case
  proof (cases "P k")
    case True
    then have "{d \<in> set (k # ks). P d} = insert k {d \<in> set ks. P d}" by auto
    moreover have "k \<notin> {d \<in> set ks. P d}" using k by simp
    ultimately show ?thesis using IH True by simp
  next
    case False
    then have "{d \<in> set (k # ks). P d} = {d \<in> set ks. P d}" by auto
    then show ?thesis using IH False by simp
  qed
qed

lemma count_Imports:
  assumes "valid_orders e"
  shows "count (mset (Imports e m)) q
           = card {d \<in> fmdom' (Deps m). \<exists>dep. fmlookup (Deps m) d = Some dep \<and> q |\<in>| dep}"
proof -
  let ?ks = "ord_deps e (Path m) (fmdom' (Deps m))"
  let ?g = "\<lambda>d. case fmlookup (Deps m) d of
                   None \<Rightarrow> [] | Some dep \<Rightarrow> ord_pkgs e (Path m) d (fset dep)"
  from assms have ro: "range_order (ord_deps e (Path m))"
    and rp: "\<And>d. range_order (ord_pkgs e (Path m) d)"
    by (auto simp: valid_orders_def)
  have ks: "set ?ks = fmdom' (Deps m)" "distinct ?ks"
    using range_orderD [OF ro, of "fmdom' (Deps m)"] by simp_all
  have g: "count (mset (?g d)) q
            = (if \<exists>dep. fmlookup (Deps m) d = Some dep \<and> q |\<in>| dep then 1 else 0)" for d
  proof (cases "fmlookup (Deps m) d")
    case None
    then show ?thesis by simp
  next
    case (Some dep)
    have "set (ord_pkgs e (Path m) d (fset dep)) = fset dep"
      and "distinct (ord_pkgs e (Path m) d (fset dep))"
      using range_orderD [OF rp, of "fset dep" d] by simp_all
    with Some show ?thesis by (simp add: count_distinct_list)
  qed
  have "count (mset (Imports e m)) q = count (mset (concat (map ?g ?ks))) q"
    by (simp add: Imports_def sortPaths_def)
  also have "\<dots> = (\<Sum>d\<leftarrow>?ks. count (mset (?g d)) q)" by (rule count_concat_map)
  also have "\<dots> = (\<Sum>d\<leftarrow>?ks. if \<exists>dep. fmlookup (Deps m) d = Some dep \<and> q |\<in>| dep
                              then 1 else 0)"
    by (simp only: g)
  also have "\<dots> = card {d \<in> set ?ks. \<exists>dep. fmlookup (Deps m) d = Some dep \<and> q |\<in>| dep}"
    using ks(2) by (rule sum_list_indicator)
  finally show ?thesis by (simp only: ks(1))
qed

lemma sorted_Imports: "sorted (Imports e m)"
  by (simp add: Imports_def sortPaths_def)

lemma valid_example_env: "valid_orders example_env"
  by (simp add: valid_orders_def range_order_def example_env_def)

lemma add_import_idem:
  assumes "add_import s a dep = Inr s1"
  shows "add_import s1 a dep = Inr s1"
proof (cases "s1 = s")
  case True
  with assms show ?thesis by simp
next
  case False
  with assms obtain dm b where nb: "\<not> isBuiltin dep" and dm: "pkg_Module dep = Some dm"
    and b: "fmlookup (modules s) (mod_Path dm) = Some b"
    and ne: "Path (heap s ! b) \<noteq> Path (heap s ! a)"
    and s1: "s1 = s\<lparr>heap := (heap s)[a := Add_at (Dep (heap s ! a) b) b (pkg_PkgPath dep)]\<rparr>"
    by (auto simp: add_import_def split: if_splits option.splits)
  have P: "\<And>c. Path (heap s1 ! c) = Path (heap s ! c)"
    by (simp add: s1 nth_list_update_total)
  have "(heap s1)[a := Add_at (Dep (heap s1 ! a) b) b (pkg_PkgPath dep)] = heap s1"
  proof (cases "a < length (heap s)")
    case True
    then show ?thesis by (simp add: s1 Add_at_Dep_idem)
  next
    case False
    then show ?thesis by (simp add: s1 list_update_beyond)
  qed
  then have "s1\<lparr>heap := (heap s1)[a := Add_at (Dep (heap s1 ! a) b) b (pkg_PkgPath dep)]\<rparr> = s1"
    by simp
  with nb dm b ne P show ?thesis
    by (simp add: add_import_def s1 del: state.simps)
qed

lemma wf_stateD:
  assumes "wf_state s"
  shows "fmlookup (modules s) p = Some a \<Longrightarrow> a < length (heap s)"
    and "fmlookup (modules s) p = Some a \<Longrightarrow> Path (heap s ! a) = p"
    and "a < length (heap s) \<Longrightarrow> fmlookup (modules s) (Path (heap s ! a)) = Some a"
    and "a < length (heap s) \<Longrightarrow> b \<in> fmdom' (Deps (heap s ! a)) \<Longrightarrow> b < length (heap s)"
  using assms unfolding wf_state_def by blast+

lemma edges_init: "edges init_state = {}"
  by (simp add: edges_def init_state_def)

lemma edges_lookup_or_create:
  assumes "wf_state s" and "lookup_or_create s pm = (a, s')"
  shows "edges s' = edges s"
proof (cases "fmlookup (modules s) (mod_Path pm)")
  case (Some b)
  with assms show ?thesis by (simp add: lookup_or_create_def)
next
  case None
  let ?m = "new_Module pm"
  have pm: "Path ?m = mod_Path pm" by (simp add: new_Module_def Let_def split: option.splits)
  have dm: "Deps ?m = fmempty" by (simp add: new_Module_def Let_def split: option.splits)
  from None assms(2) have s': "s' = \<lparr>heap = heap s @ [?m],
      modules = fmupd (Path ?m) (length (heap s)) (modules s)\<rparr>"
    by (auto simp: lookup_or_create_def Let_def)
  note w = wf_stateD [OF assms(1)]
  have old: "heap s' ! c = heap s ! c" if "c < length (heap s)" for c
    using that by (simp add: s' nth_append)
  show ?thesis
  proof (rule set_eqI)
    fix x :: "Path \<times> Path \<times> Path"
    obtain p d q where x: "x = (p, d, q)" by (cases x)
    show "x \<in> edges s' \<longleftrightarrow> x \<in> edges s"
    proof
      assume "x \<in> edges s'"
      then obtain a' b dep where 1: "fmlookup (modules s') p = Some a'"
        and 2: "fmlookup (Deps (heap s' ! a')) b = Some dep" and 3: "q |\<in>| dep"
        and 4: "d = Path (heap s' ! b)"
        by (auto simp: edges_def x)
      have pne: "p \<noteq> Path ?m"
      proof
        assume "p = Path ?m"
        with 1 have "a' = length (heap s)" by (simp add: s')
        with 2 dm show False by (simp add: s')
      qed
      with 1 have m1: "fmlookup (modules s) p = Some a'" by (simp add: s')
      then have a': "a' < length (heap s)" by (rule w(1))
      from 2 old [OF a'] have m2: "fmlookup (Deps (heap s ! a')) b = Some dep" by simp
      then have "b \<in> fmdom' (Deps (heap s ! a'))" by (rule fmdom'I)
      then have "b < length (heap s)" using w(4) [OF a'] by blast
      with 4 old have "d = Path (heap s ! b)" by simp
      with m1 m2 3 show "x \<in> edges s" by (auto simp: edges_def x)
    next
      assume "x \<in> edges s"
      then obtain a' b dep where 1: "fmlookup (modules s) p = Some a'"
        and 2: "fmlookup (Deps (heap s ! a')) b = Some dep" and 3: "q |\<in>| dep"
        and 4: "d = Path (heap s ! b)"
        by (auto simp: edges_def x)
      from 1 None pm have "p \<noteq> Path ?m" by auto
      with 1 have m1: "fmlookup (modules s') p = Some a'" by (simp add: s')
      have a': "a' < length (heap s)" using 1 by (rule w(1))
      from 2 old [OF a'] have m2: "fmlookup (Deps (heap s' ! a')) b = Some dep" by simp
      from 2 have "b \<in> fmdom' (Deps (heap s ! a'))" by (rule fmdom'I)
      then have "b < length (heap s)" using w(4) [OF a'] by blast
      with 4 old have "d = Path (heap s' ! b)" by simp
      with m1 m2 3 show "x \<in> edges s'" by (auto simp: edges_def x)
    qed
  qed
qed

lemma import_edges_Nil [simp]: "import_edges p [] = {}"
  by (simp add: import_edges_def)

lemma import_edges_Cons:
  "import_edges p (dep # deps) = import_edges p [dep] \<union> import_edges p deps"
  by (auto simp: import_edges_def)

lemma edges_add_import:
  assumes "wf_state s" and "fmlookup (modules s) p = Some a"
    and "add_import s a dep = Inr s'"
  shows "edges s' = edges s \<union> import_edges p [dep]"
proof -
  note w = wf_stateD [OF assms(1)]
  have a: "a < length (heap s)" and pa: "Path (heap s ! a) = p"
    using w(1,2) [OF assms(2)] by simp_all
  show ?thesis
  proof (cases "isBuiltin dep")
    case True
    with assms(3) show ?thesis by (auto simp: add_import_def import_edges_def)
  next
    case False
    with assms(3) obtain dm b where dm: "pkg_Module dep = Some dm"
      and b: "fmlookup (modules s) (mod_Path dm) = Some b"
      by (auto simp: add_import_def split: option.splits)
    have pb: "Path (heap s ! b) = mod_Path dm" using w(2) [OF b] .
    show ?thesis
    proof (cases "mod_Path dm = p")
      case True
      with assms(3) False dm b pa pb have "s' = s" by (simp add: add_import_def)
      moreover from True False dm have "import_edges p [dep] = {}"
        by (auto simp: import_edges_def)
      ultimately show ?thesis by simp
    next
      case ne: False
      let ?q = "pkg_PkgPath dep"
      let ?S = "finsert ?q (case fmlookup (Deps (heap s ! a)) b of
                             None \<Rightarrow> {||} | Some pkgs \<Rightarrow> pkgs)"
      let ?m = "(heap s ! a)\<lparr>Deps := fmupd b ?S (Deps (heap s ! a))\<rparr>"
      from assms(3) False dm b pa pb ne
      have s': "s' = s\<lparr>heap := (heap s)[a := ?m]\<rparr>"
        by (simp add: add_import_def Add_at_Dep_eq)
      have M: "modules s' = modules s" by (simp add: s')
      have H: "heap s' ! c = (if c = a then ?m else heap s ! c)" for c
        using a by (simp add: s' nth_list_update_total)
      have P: "Path (heap s' ! c) = Path (heap s ! c)" for c
        by (simp add: H)
      have ie: "import_edges p [dep] = {(p, mod_Path dm, ?q)}"
        using False dm ne by (auto simp: import_edges_def)
      have same: "a' = a \<longleftrightarrow> p' = p" if l: "fmlookup (modules s) p' = Some a'" for a' p'
      proof
        assume "a' = a"
        with w(2) [OF l] pa show "p' = p" by simp
      next
        assume "p' = p"
        with l assms(2) show "a' = a" by simp
      qed
      show ?thesis
      proof (rule set_eqI)
        fix x :: "Path \<times> Path \<times> Path"
        obtain p' d q where x: "x = (p', d, q)" by (cases x)
        show "x \<in> edges s' \<longleftrightarrow> x \<in> edges s \<union> import_edges p [dep]"
        proof
          assume "x \<in> edges s'"
          then obtain a' b' dep' where 1: "fmlookup (modules s) p' = Some a'"
            and 2: "fmlookup (Deps (heap s' ! a')) b' = Some dep'" and 3: "q |\<in>| dep'"
            and 4: "d = Path (heap s ! b')"
            by (auto simp: edges_def x M P)
          show "x \<in> edges s \<union> import_edges p [dep]"
          proof (cases "a' = a \<and> b' = b")
            case True
            with same [OF 1] have pp: "p' = p" by simp
            from True 2 have "dep' = ?S" by (simp add: H)
            with 3 consider "q = ?q"
              | "q |\<in>| (case fmlookup (Deps (heap s ! a)) b of None \<Rightarrow> {||} | Some pkgs \<Rightarrow> pkgs)"
              by auto
            then show ?thesis
            proof cases
              case 1
              with True pp 4 pb show ?thesis by (simp add: ie x)
            next
              case 2
              then obtain pkgs where "fmlookup (Deps (heap s ! a)) b = Some pkgs"
                and "q |\<in>| pkgs" by (auto split: option.splits)
              with 1 True 4 show ?thesis by (auto simp: edges_def x)
            qed
          next
            case False
            with 2 have "fmlookup (Deps (heap s ! a')) b' = Some dep'"
              by (auto simp: H split: if_splits)
            with 1 3 4 show ?thesis by (auto simp: edges_def x)
          qed
        next
          assume "x \<in> edges s \<union> import_edges p [dep]"
          then show "x \<in> edges s'"
          proof
            assume "x \<in> edges s"
            then obtain a' b' dep' where 1: "fmlookup (modules s) p' = Some a'"
              and 2: "fmlookup (Deps (heap s ! a')) b' = Some dep'" and 3: "q |\<in>| dep'"
              and 4: "d = Path (heap s ! b')"
              by (auto simp: edges_def x)
            have "\<exists>dep''. fmlookup (Deps (heap s' ! a')) b' = Some dep'' \<and> q |\<in>| dep''"
              using 2 3 by (auto simp: H)
            with 1 4 show ?thesis by (auto simp: edges_def x M P)
          next
            assume "x \<in> import_edges p [dep]"
            then have x': "p' = p" "d = mod_Path dm" "q = ?q" by (simp_all add: ie x)
            have e1: "fmlookup (Deps (heap s' ! a)) b = Some ?S" by (simp add: H)
            have e2: "?q |\<in>| ?S" by simp
            have "fmlookup (modules s) p = Some a
                \<and> fmlookup (Deps (heap s' ! a)) b = Some ?S \<and> ?q |\<in>| ?S
                \<and> mod_Path dm = Path (heap s ! b)"
              using assms(2) pb e1 e2 by simp
            then have "\<exists>a b dep. fmlookup (modules s) p = Some a
                \<and> fmlookup (Deps (heap s' ! a)) b = Some dep \<and> ?q |\<in>| dep
                \<and> mod_Path dm = Path (heap s ! b)"
              by (intro exI)
            then show ?thesis by (simp add: edges_def x x' M P)
          qed
        qed
      qed
    qed
  qed
qed

lemma edges_add_imports:
  assumes "wf_state s" and "fmlookup (modules s) p = Some a"
    and "add_imports s a deps = Inr s'"
  shows "edges s' = edges s \<union> import_edges p deps"
  using assms
proof (induction deps arbitrary: s)
  case Nil
  then show ?case by simp
next
  case (Cons dep deps)
  from Cons.prems(3) obtain s1 where 1: "add_import s a dep = Inr s1"
    and 2: "add_imports s1 a deps = Inr s'"
    by (auto split: sum.splits)
  have w1: "wf_state s1" using wf_add_import [OF Cons.prems(1) 1] .
  have m1: "fmlookup (modules s1) p = Some a"
    using add_import_frame [OF 1] Cons.prems(2) by simp
  from Cons.IH [OF w1 m1 2] edges_add_import [OF Cons.prems(1,2) 1]
  show ?case by (subst import_edges_Cons) auto
qed

lemma edges_post:
  assumes "wf_state s" and "post s pkg = Inr s'"
  shows "edges s' = edges s \<union> pkg_edges pkg"
proof (cases "isBuiltin pkg \<or> pkg_Module pkg = None")
  case True
  with assms(2) have "s' = s" by (auto simp: post_def split: if_splits)
  with True show ?thesis by (auto simp: pkg_edges_def)
next
  case False
  then obtain pm where pm: "pkg_Module pkg = Some pm" and nb: "\<not> isBuiltin pkg" by auto
  obtain a s1 where l: "lookup_or_create s pm = (a, s1)" by (cases "lookup_or_create s pm")
  with assms(2) pm nb have ai: "add_imports s1 a (map snd (pkg_Imports pkg)) = Inr s'"
    by (auto simp: post_def split: if_splits)
  from edges_add_imports [OF wf_lookup_or_create [OF assms(1) l]
      lookup_or_create_frame(4) [OF l] ai] edges_lookup_or_create [OF assms(1) l] pm nb
  show ?thesis by (simp add: pkg_edges_def)
qed

lemma edges_walk:
  assumes "wf_state s" and "walk s pkgs = Inr s'"
  shows "edges s' = edges s \<union> \<Union> (pkg_edges ` set pkgs)"
  using assms
proof (induction pkgs arbitrary: s)
  case Nil
  then show ?case by simp
next
  case (Cons pkg pkgs)
  from Cons.prems(2) obtain s1 where 1: "post s pkg = Inr s1" and 2: "walk s1 pkgs = Inr s'"
    by (auto split: sum.splits)
  from Cons.IH [OF wf_post [OF Cons.prems(1) 1] 2] edges_post [OF Cons.prems(1) 1]
  show ?case by auto
qed

lemma import_edges_set:
  "set deps = set deps' \<Longrightarrow> import_edges p deps = import_edges p deps'"
  by (simp add: import_edges_def)

lemma same_package_edges:
  assumes "same_package p q"
  shows "pkg_edges p = pkg_edges q"
proof -
  from assms have "set (map snd (pkg_Imports p)) = set (map snd (pkg_Imports q))"
    by (simp add: same_package_def)
  then have "import_edges x (map snd (pkg_Imports p)) = import_edges x (map snd (pkg_Imports q))"
    for x by (rule import_edges_set)
  with assms show ?thesis
    by (simp add: same_package_def pkg_edges_def isBuiltin_def split: option.splits)
qed

lemma same_graph_edges:
  assumes "same_graph ps qs"
  shows "\<Union> (pkg_edges ` set ps) = \<Union> (pkg_edges ` set qs)"
proof -
  have "\<Union> (pkg_edges ` set ps) \<subseteq> \<Union> (pkg_edges ` set qs)"
    if "\<forall>p \<in> set ps. \<exists>q \<in> set qs. same_package p q" for ps qs
    using that same_package_edges by blast
  moreover have "same_package q p" if "same_package p q" for p q
    using that by (simp add: same_package_def)
  ultimately show ?thesis using assms unfolding same_graph_def by (meson subset_antisym)
qed

lemma Imports_count_edges:
  assumes "wf_state s" and "valid_orders e" and "fmlookup (modules s) p = Some a"
  shows "count (mset (Imports e (heap s ! a))) q = card {d. (p, d, q) \<in> edges s}"
proof -
  note w = wf_stateD [OF assms(1)]
  have a: "a < length (heap s)" using w(1) [OF assms(3)] .
  let ?B = "{b \<in> fmdom' (Deps (heap s ! a)).
              \<exists>dep. fmlookup (Deps (heap s ! a)) b = Some dep \<and> q |\<in>| dep}"
  have inj: "inj_on (\<lambda>b. Path (heap s ! b)) ?B"
  proof (rule inj_onI)
    fix b c assume "b \<in> ?B" and "c \<in> ?B" and eq: "Path (heap s ! b) = Path (heap s ! c)"
    then have "b < length (heap s)" and "c < length (heap s)" using w(4) [OF a] by auto
    then have "fmlookup (modules s) (Path (heap s ! b)) = Some b"
      and "fmlookup (modules s) (Path (heap s ! c)) = Some c" using w(3) by blast+
    then have "Some b = Some c" unfolding eq by (rule trans [OF sym])
    then show "b = c" by (rule option.inject [THEN iffD1])
  qed
  have "{d. (p, d, q) \<in> edges s} = (\<lambda>b. Path (heap s ! b)) ` ?B"
  proof (rule set_eqI)
    fix d
    show "d \<in> {d. (p, d, q) \<in> edges s} \<longleftrightarrow> d \<in> (\<lambda>b. Path (heap s ! b)) ` ?B"
    proof
      assume "d \<in> {d. (p, d, q) \<in> edges s}"
      then obtain b dep where "fmlookup (Deps (heap s ! a)) b = Some dep" and "q |\<in>| dep"
        and "d = Path (heap s ! b)"
        using assms(3) by (auto simp: edges_def)
      then show "d \<in> (\<lambda>b. Path (heap s ! b)) ` ?B"
        by (auto intro!: image_eqI [of _ _ b] fmdom'I)
    next
      assume "d \<in> (\<lambda>b. Path (heap s ! b)) ` ?B"
      then obtain b dep where "fmlookup (Deps (heap s ! a)) b = Some dep" and "q |\<in>| dep"
        and "d = Path (heap s ! b)" by auto
      with assms(3) have "(p, d, q) \<in> edges s" unfolding edges_def by blast
      then show "d \<in> {d. (p, d, q) \<in> edges s}" by simp
    qed
  qed
  then have "card {d. (p, d, q) \<in> edges s} = card ?B"
    using card_image [OF inj] by simp
  with count_Imports [OF assms(2), of "heap s ! a" q] show ?thesis by simp
qed

lemma sortPaths_range_order:
  assumes "range_order f" and "finite S"
  shows "sortPaths (f S) = sorted_list_of_set S"
proof -
  have "set (f S) = S" and "distinct (f S)" using range_orderD [OF assms] by simp_all
  then show ?thesis
    unfolding sortPaths_def using sorted_list_of_set_sort_remdups [of "f S"]
    by (simp add: distinct_remdups_id)
qed

lemma emit_paths:
  assumes "range_order (ord_modules e)"
  shows "emit e s = emit_loop e s (sorted_list_of_set (fmdom' (modules s))) []"
  by (simp add: emit_def sortPaths_range_order [OF assms])

lemma emit_loop_append:
  "emit_loop e s (xs @ ys) written =
     (if status (emit_loop e s xs written) = Done
      then emit_loop e s ys (files (emit_loop e s xs written))
      else emit_loop e s xs written)"
  by (induction xs arbitrary: written)
    (auto simp: Let_def split: option.splits sum.splits)

lemma emit_loop_local_replace:
  assumes "fmlookup (modules s) p = Some a" and "IsExternal (heap s ! a)"
    and "ReplacePath (heap s ! a) \<noteq> []" and "hd (ReplacePath (heap s ! a)) = CHR ''.''"
  shows "emit_loop e s (p # paths) written =
           (if ReplacePath (heap s ! a)
                 \<noteq> ''./'' @ path_Join e ''third_party/gopkgs'' (Path (heap s ! a))
            then \<lparr>files = written,
                  status = Exit1 (''replace points at //'' @ ReplacePath (heap s ! a)
                                  @ '', expected it to point at //''
                                  @ path_Join e ''third_party/gopkgs'' (Path (heap s ! a)) @ nl)\<rparr>
            else emit_loop e s paths written)"
  using assms by (simp add: Let_def)

lemma emit_loop_Cons_cases:
  assumes "fmlookup (modules s) p = Some a"
  shows "emit_loop e s (p # paths) written = emit_loop e s paths written
      \<or> (\<exists>st. st \<noteq> Done
            \<and> emit_loop e s (p # paths) written = \<lparr>files = written, status = st\<rparr>)
      \<or> (\<exists>data. Execute e (heap s ! a) = Inr data \<and> IsExternal (heap s ! a)
          \<and> \<not> (ReplacePath (heap s ! a) \<noteq> [] \<and> hd (ReplacePath (heap s ! a)) = CHR ''.'')
          \<and> emit_loop e s (p # paths) written
            = emit_loop e s paths
              (written @ [(path_Join e ''third_party/gopkgs'' (Path (heap s ! a)),
                           ''default.nix'', data)]))"
proof (cases "IsExternal (heap s ! a)")
  case False
  with assms show ?thesis by simp
next
  case ext: True
  show ?thesis
  proof (cases "ReplacePath (heap s ! a) \<noteq> [] \<and> hd (ReplacePath (heap s ! a)) = CHR ''.''")
    case True
    with assms ext show ?thesis by (simp add: Let_def)
  next
    case nonlocal: False
    show ?thesis
    proof (cases "Execute e (heap s ! a)")
      case (Inl err)
      with assms ext nonlocal show ?thesis by (simp add: Let_def)
    next
      case (Inr data)
      show ?thesis
      proof (cases "fs_write e (path_Join e ''third_party/gopkgs'' (Path (heap s ! a)))
                      ''default.nix'' data")
        case None
        with assms ext nonlocal Inr show ?thesis by (simp add: Let_def)
      next
        case (Some err)
        with assms ext nonlocal Inr show ?thesis by (simp add: Let_def)
      qed
    qed
  qed
qed

text \<open>Every file of the loop was written before the loop, or is the rendering of an external
  module among the paths that carries no local replace path.\<close>

lemma emit_loop_files:
  assumes "f \<in> set (files (emit_loop e s paths written))"
  shows "f \<in> set written
    \<or> (\<exists>p a data. p \<in> set paths \<and> fmlookup (modules s) p = Some a
          \<and> IsExternal (heap s ! a)
          \<and> \<not> (ReplacePath (heap s ! a) \<noteq> [] \<and> hd (ReplacePath (heap s ! a)) = CHR ''.'')
          \<and> Execute e (heap s ! a) = Inr data
          \<and> f = (path_Join e ''third_party/gopkgs'' (Path (heap s ! a)), ''default.nix'', data))"
  using assms
proof (induction paths arbitrary: written)
  case Nil
  then show ?case by simp
next
  case (Cons p paths)
  show ?case
  proof (cases "fmlookup (modules s) p")
    case None
    with Cons.prems show ?thesis by simp
  next
    case (Some a)
    let ?m = "heap s ! a"
    have "emit_loop e s (p # paths) written = emit_loop e s paths written
      \<or> files (emit_loop e s (p # paths) written) = written
      \<or> (\<exists>data. Execute e ?m = Inr data \<and> IsExternal ?m
          \<and> \<not> (ReplacePath ?m \<noteq> [] \<and> hd (ReplacePath ?m) = CHR ''.'')
          \<and> emit_loop e s (p # paths) written
            = emit_loop e s paths
              (written @ [(path_Join e ''third_party/gopkgs'' (Path ?m), ''default.nix'', data)]))"
      using emit_loop_Cons_cases [OF Some, of e paths written] by auto
    then consider (skip) "emit_loop e s (p # paths) written = emit_loop e s paths written"
      | (stop) "files (emit_loop e s (p # paths) written) = written"
      | (wrote) data where "Execute e ?m = Inr data" "IsExternal ?m"
          "\<not> (ReplacePath ?m \<noteq> [] \<and> hd (ReplacePath ?m) = CHR ''.'')"
          "emit_loop e s (p # paths) written
            = emit_loop e s paths
                (written @ [(path_Join e ''third_party/gopkgs'' (Path ?m), ''default.nix'', data)])"
      by blast
    then show ?thesis
    proof cases
      case skip
      with Cons.prems Cons.IH [of written] show ?thesis by auto
    next
      case stop
      with Cons.prems show ?thesis by simp
    next
      case wrote
      with Cons.prems Cons.IH
        [of "written @ [(path_Join e ''third_party/gopkgs'' (Path ?m), ''default.nix'', data)]"]
      have "f \<in> set written
          \<or> f = (path_Join e ''third_party/gopkgs'' (Path ?m), ''default.nix'', data)
          \<or> (\<exists>p a data. p \<in> set paths \<and> fmlookup (modules s) p = Some a
          \<and> IsExternal (heap s ! a)
          \<and> \<not> (ReplacePath (heap s ! a) \<noteq> [] \<and> hd (ReplacePath (heap s ! a)) = CHR ''.'')
          \<and> Execute e (heap s ! a) = Inr data
          \<and> f = (path_Join e ''third_party/gopkgs'' (Path (heap s ! a)), ''default.nix'', data))"
        by auto
      then show ?thesis
      proof (elim disjE)
        assume "f = (path_Join e ''third_party/gopkgs'' (Path ?m), ''default.nix'', data)"
        with wrote Some show ?thesis by auto
      qed auto
    qed
  qed
qed

lemma emit_split:
  assumes "range_order (ord_modules e)" and "fmlookup (modules s) p = Some a"
  shows "\<exists>before after.
           sortPaths (ord_modules e (fmdom' (modules s))) = before @ p # after
           \<and> p \<notin> set before \<and> p \<notin> set after
           \<and> emit e s =
               (if status (emit_loop e s before []) = Done
                then emit_loop e s (p # after) (files (emit_loop e s before []))
                else emit_loop e s before [])"
proof -
  let ?xs = "sortPaths (ord_modules e (fmdom' (modules s)))"
  have xs: "?xs = sorted_list_of_set (fmdom' (modules s))"
    using sortPaths_range_order [OF assms(1)] by simp
  from assms(2) have "p \<in> set ?xs" by (simp add: xs fmdom'I)
  then obtain before after where sp: "?xs = before @ p # after"
    by (auto dest: split_list)
  have "distinct ?xs" by (simp add: xs)
  with sp have "p \<notin> set before \<and> p \<notin> set after" by simp
  moreover have "emit e s =
               (if status (emit_loop e s before []) = Done
                then emit_loop e s (p # after) (files (emit_loop e s before []))
                else emit_loop e s before [])"
    unfolding emit_def sp by (rule emit_loop_append)
  ultimately show ?thesis using sp by blast
qed

lemma post_modules_mono:
  assumes "post s pkg = Inr s'" and "fmlookup (modules s) p = Some b"
  shows "fmlookup (modules s') p = Some b"
proof (cases "isBuiltin pkg \<or> pkg_Module pkg = None")
  case True
  with assms(1) have "s' = s" by (auto simp: post_def split: if_splits)
  with assms(2) show ?thesis by simp
next
  case False
  then obtain pm where pm: "pkg_Module pkg = Some pm" and nb: "\<not> isBuiltin pkg" by auto
  obtain a s1 where l: "lookup_or_create s pm = (a, s1)" by (cases "lookup_or_create s pm")
  with assms(1) pm nb have ai: "add_imports s1 a (map snd (pkg_Imports pkg)) = Inr s'"
    by (auto simp: post_def split: if_splits)
  from lookup_or_create_frame(3) [OF l assms(2)] add_imports_modules [OF ai]
  show ?thesis by simp
qed

lemma post_registers:
  assumes "post s pkg = Inr s'" and "\<not> isBuiltin pkg" and "pkg_Module pkg = Some pm"
  shows "\<exists>a. fmlookup (modules s') (mod_Path pm) = Some a"
proof -
  obtain a s1 where l: "lookup_or_create s pm = (a, s1)" by (cases "lookup_or_create s pm")
  with assms have ai: "add_imports s1 a (map snd (pkg_Imports pkg)) = Inr s'"
    by (auto simp: post_def split: if_splits)
  from lookup_or_create_frame(4) [OF l] add_imports_modules [OF ai]
  show ?thesis by simp
qed

lemma walk_modules_mono:
  "walk s pkgs = Inr s' \<Longrightarrow> fmlookup (modules s) p = Some b \<Longrightarrow>
   fmlookup (modules s') p = Some b"
proof (induction pkgs arbitrary: s)
  case Nil
  then show ?case by simp
next
  case (Cons pkg pkgs)
  from Cons.prems(1) obtain s1 where 1: "post s pkg = Inr s1" and 2: "walk s1 pkgs = Inr s'"
    by (auto split: sum.splits)
  from Cons.IH [OF 2 post_modules_mono [OF 1 Cons.prems(2)]] show ?case .
qed

lemma walk_registers:
  "walk s pkgs = Inr s' \<Longrightarrow> pkg \<in> set pkgs \<Longrightarrow> \<not> isBuiltin pkg \<Longrightarrow>
   pkg_Module pkg = Some pm \<Longrightarrow> \<exists>a. fmlookup (modules s') (mod_Path pm) = Some a"
proof (induction pkgs arbitrary: s)
  case Nil
  then show ?case by simp
next
  case (Cons x pkgs)
  from Cons.prems(1) obtain s1 where 1: "post s x = Inr s1" and 2: "walk s1 pkgs = Inr s'"
    by (auto split: sum.splits)
  show ?case
  proof (cases "pkg = x")
    case True
    with post_registers [OF 1] Cons.prems(3,4) obtain a
      where "fmlookup (modules s1) (mod_Path pm) = Some a" by blast
    from walk_modules_mono [OF 2 this] show ?thesis by blast
  next
    case False
    with Cons.prems(2) have "pkg \<in> set pkgs" by simp
    from Cons.IH [OF 2 this Cons.prems(3,4)] show ?thesis .
  qed
qed

lemma edges_of_walk:
  assumes "walk init_state pkgs = Inr s"
  shows "edges s = \<Union> (pkg_edges ` set pkgs)"
  using edges_walk [OF wf_init assms] by (simp add: edges_init)

lemma edge_entry:
  assumes "wf_state s" and "fmlookup (modules s) p = Some a" and "(p, d, q) \<in> edges s"
  shows "\<exists>b S. fmlookup (modules s) d = Some b \<and> fmlookup (Deps (heap s ! a)) b = Some S
           \<and> q |\<in>| S"
proof -
  note w = wf_stateD [OF assms(1)]
  from assms(2,3) obtain b S where 1: "fmlookup (Deps (heap s ! a)) b = Some S"
    and 2: "q |\<in>| S" and 3: "d = Path (heap s ! b)"
    by (auto simp: edges_def)
  from 1 have "b \<in> fmdom' (Deps (heap s ! a))" by (rule fmdom'I)
  then have "b < length (heap s)" using w(4) [OF w(1) [OF assms(2)]] by blast
  then have "fmlookup (modules s) d = Some b" unfolding 3 by (rule w(3))
  with 1 2 show ?thesis by blast
qed

lemma import_in_pkg_edges:
  assumes "\<not> isBuiltin pkg" and "pkg_Module pkg = Some pm"
    and "(ip, dep) \<in> set (pkg_Imports pkg)" and "\<not> isBuiltin dep"
    and "pkg_Module dep = Some dm" and "mod_Path dm \<noteq> mod_Path pm"
  shows "(mod_Path pm, mod_Path dm, pkg_PkgPath dep) \<in> pkg_edges pkg"
proof -
  from assms(3) have "dep \<in> set (map snd (pkg_Imports pkg))" by force
  with assms show ?thesis by (auto simp: pkg_edges_def import_edges_def)
qed

lemma pkg_edges_import:
  assumes "(p, d, q) \<in> pkg_edges pkg"
  shows "\<exists>dep \<in> snd ` set (pkg_Imports pkg). \<exists>dm. pkg_Module dep = Some dm
           \<and> d = mod_Path dm \<and> q = pkg_PkgPath dep"
  using assms by (auto simp: pkg_edges_def import_edges_def split: if_splits option.splits)

lemma owned_one_target:
  assumes "owned_by_one_module pkgs" and "pkg \<in> set pkgs" and "pkg' \<in> set pkgs"
    and "(p, d, q) \<in> pkg_edges pkg" and "(p', d', q) \<in> pkg_edges pkg'"
  shows "d = d'"
proof -
  from pkg_edges_import [OF assms(4)] obtain dep dm where
    1: "dep \<in> snd ` set (pkg_Imports pkg)" "pkg_Module dep = Some dm" "d = mod_Path dm"
       "q = pkg_PkgPath dep" by blast
  from pkg_edges_import [OF assms(5)] obtain dep' dm' where
    2: "dep' \<in> snd ` set (pkg_Imports pkg')" "pkg_Module dep' = Some dm'" "d' = mod_Path dm'"
       "q = pkg_PkgPath dep'" by blast
  from assms(1,2,3) 1(1) 2(1) 1(4) 2(4)
  have "map_option mod_Path (pkg_Module dep) = map_option mod_Path (pkg_Module dep')"
    unfolding owned_by_one_module_def by metis
  with 1 2 show ?thesis by simp
qed

lemma files_grow:
  "set written \<subseteq> set (files (emit_loop e s paths written))"
proof (induction paths arbitrary: written)
  case Nil
  show ?case by simp
next
  case (Cons p paths)
  show ?case
  proof (cases "fmlookup (modules s) p")
    case None
    then show ?thesis by simp
  next
    case (Some a)
    from emit_loop_Cons_cases [OF Some, of e paths written] Cons.IH [of written]
      Cons.IH [of "written @ [(path_Join e ''third_party/gopkgs'' (Path (heap s ! a)),
                           ''default.nix'', data)]" for data]
    show ?thesis by (elim disjE exE conjE) auto
  qed
qed

lemma emit_loop_render:
  assumes "fmlookup (modules s) p = Some a" and "IsExternal (heap s ! a)"
    and "\<not> (ReplacePath (heap s ! a) \<noteq> [] \<and> hd (ReplacePath (heap s ! a)) = CHR ''.'')"
  shows "emit_loop e s (p # paths) written =
     (case Execute e (heap s ! a) of
        Inl err \<Rightarrow> \<lparr>files = written, status = Panic err\<rparr>
      | Inr data \<Rightarrow>
          (case fs_write e (path_Join e ''third_party/gopkgs'' (Path (heap s ! a)))
                  ''default.nix'' data of
             Some err \<Rightarrow> \<lparr>files = written, status = Panic (WriteError err)\<rparr>
           | None \<Rightarrow>
               emit_loop e s paths
                 (written @ [(path_Join e ''third_party/gopkgs'' (Path (heap s ! a)),
                              ''default.nix'', data)])))"
proof -
  show ?thesis
  proof (cases "ReplacePath (heap s ! a) = []")
    case True
    with assms(1,2) show ?thesis by (simp add: Let_def)
  next
    case False
    with assms(3) have "hd (ReplacePath (heap s ! a)) \<noteq> CHR ''.''" by simp
    with assms(1,2) show ?thesis by (simp add: Let_def)
  qed
qed

lemma emit_loop_done_files:
  assumes "status (emit_loop e s paths written) = Done" and "p \<in> set paths"
    and "fmlookup (modules s) p = Some a" and "IsExternal (heap s ! a)"
    and "\<not> (ReplacePath (heap s ! a) \<noteq> [] \<and> hd (ReplacePath (heap s ! a)) = CHR ''.'')"
  shows "\<exists>data. Execute e (heap s ! a) = Inr data
           \<and> (path_Join e ''third_party/gopkgs'' (Path (heap s ! a)), ''default.nix'', data)
               \<in> set (files (emit_loop e s paths written))"
  using assms(1,2)
proof (induction paths arbitrary: written)
  case Nil
  then show ?case by simp
next
  case (Cons x paths)
  show ?case
  proof (cases "x = p")
    case True
    let ?m = "heap s ! a"
    let ?dir = "path_Join e ''third_party/gopkgs'' (Path ?m)"
    note r = emit_loop_render [OF assms(3,4,5), of e paths written]
    from Cons.prems(1) True obtain data where d: "Execute e ?m = Inr data"
      unfolding True r by (cases "Execute e ?m") auto
    from Cons.prems(1) d have w: "fs_write e ?dir ''default.nix'' data = None"
      unfolding True r by (cases "fs_write e ?dir ''default.nix'' data") auto
    from d w
    have "emit_loop e s (x # paths) written
            = emit_loop e s paths (written @ [(?dir, ''default.nix'', data)])"
      unfolding True r by simp
    moreover have "(?dir, ''default.nix'', data)
        \<in> set (files (emit_loop e s paths (written @ [(?dir, ''default.nix'', data)])))"
      using files_grow [of "written @ [(?dir, ''default.nix'', data)]" e s paths] by auto
    ultimately show ?thesis using d by auto
  next
    case False
    with Cons.prems(2) have p: "p \<in> set paths" by simp
    show ?thesis
    proof (cases "fmlookup (modules s) x")
      case None
      with Cons.prems(1) show ?thesis by simp
    next
      case (Some b)
      from emit_loop_Cons_cases [OF Some, of e paths written]
      consider "emit_loop e s (x # paths) written = emit_loop e s paths written"
        | st where "st \<noteq> Done"
          "emit_loop e s (x # paths) written = \<lparr>files = written, status = st\<rparr>"
        | data where "emit_loop e s (x # paths) written
            = emit_loop e s paths
              (written @ [(path_Join e ''third_party/gopkgs'' (Path (heap s ! b)),
                           ''default.nix'', data)])"
        by blast
      then show ?thesis
      proof cases
        case 1
        with Cons.prems(1) Cons.IH [OF _ p, of written] show ?thesis by simp
      next
        case 2
        with Cons.prems(1) show ?thesis by simp
      next
        case 3
        with Cons.prems(1) Cons.IH [OF _ p, of "written @ [(path_Join e ''third_party/gopkgs''
              (Path (heap s ! b)), ''default.nix'', data)]"]
        show ?thesis by simp
      qed
    qed
  qed
qed

lemma Execute_dependency_list:
  assumes "Execute e m = Inr data" and "Imports e m \<noteq> []"
  shows "\<exists>before. data = before @ ''  deps = with platform.third_party; [''
           @ concat (map (\<lambda>p. nl @ ''    gopkgs.'' @ NixAttr (quote_other e) p) (Imports e m))
           @ nl @ ''  ];'' @ nl @ ''}'' @ nl"
proof -
  from assms(1) obtain digest where md: "ModSHA256 e m = Inr digest"
    by (cases "ModSHA256 e m") (simp_all only: Execute_def sum.case sum.distinct)
  let ?head = "''# generator //tools/mud (DO NOT EDIT)'' @ nl
               @ ''{ platform, pkgs, ... }:'' @ nl
               @ nl
               @ ''platform.buildGo.external rec {'' @ nl
               @ ''  path = '' @ dq @ Path m @ dq @ '';'' @ nl
               @ ''  src = platform.lib.fetchGoModule {'' @ nl
               @ ''    inherit path;'' @ nl
               @ ''    version = '' @ dq @ Version m @ dq @ '';'' @ nl
               @ ''    sha256 = '' @ dq @ digest @ dq @ '';'' @ nl
               @ ''  };'' @ nl"
  have "Execute e m = Inr (?head @ ''  deps = with platform.third_party; [''
           @ concat (map (\<lambda>p. nl @ ''    gopkgs.'' @ NixAttr (quote_other e) p) (Imports e m))
           @ nl @ ''  ];'' @ nl @ ''}'' @ nl)"
    unfolding Execute_def md Let_def
    by (simp only: sum.case if_not_P [OF assms(2)] append_assoc)
  with assms(1) have "data = ?head @ ''  deps = with platform.third_party; [''
           @ concat (map (\<lambda>p. nl @ ''    gopkgs.'' @ NixAttr (quote_other e) p) (Imports e m))
           @ nl @ ''  ];'' @ nl @ ''}'' @ nl"
    by (simp only: sum.inject)
  then show ?thesis by (rule exI [of _ ?head])
qed

lemmas example_defs =
  example_fmt_def example_x_def example_y_def example_a_def example_b_def example_c_def
  example_alpha_def example_beta_def

lemma Path_new_Module [simp]: "Path (new_Module pm) = mod_Path pm"
  by (simp add: new_Module_def Let_def split: option.splits)

lemma registry_origin:
  assumes "walk init_state pkgs = Inr s" and "fmlookup (modules s) p = Some a"
  shows "\<exists>pkg \<in> set pkgs. \<exists>pm. \<not> isBuiltin pkg \<and> pkg_Module pkg = Some pm
           \<and> mod_Path pm = p \<and> coordinates (heap s ! a) = coordinates (new_Module pm)"
proof -
  have wf: "wf_state s" using wf_walk [OF wf_init assms(1)] .
  have a: "a < length (heap s)" and pa: "Path (heap s ! a) = p"
    using wf_stateD(1,2) [OF wf assms(2)] by simp_all
  from walk_records [OF assms(1) a] obtain pkg pm where 1: "pkg \<in> set pkgs"
    and 2: "\<not> isBuiltin pkg" and 3: "pkg_Module pkg = Some pm"
    and 4: "coordinates (heap s ! a) = coordinates (new_Module pm)"
    by (auto simp: init_state_def)
  from 4 have "Path (heap s ! a) = Path (new_Module pm)" by (simp add: coordinates_def)
  with pa have "mod_Path pm = p" by simp
  with 1 2 3 4 show ?thesis by blast
qed

lemma same_package_sym: "same_package p q \<Longrightarrow> same_package q p"
  by (simp add: same_package_def)

lemma same_graph_sym: "same_graph ps qs \<Longrightarrow> same_graph qs ps"
  unfolding same_graph_def using same_package_sym by blast

lemma same_package_fields:
  assumes "same_package p q"
  shows "isBuiltin p = isBuiltin q" and "pkg_Module p = pkg_Module q"
    and "pkgErrors p = pkgErrors q"
  using assms by (simp_all add: same_package_def isBuiltin_def pkgErrors_def)

lemma registry_agrees:
  assumes "walk init_state pkgs = Inr s" and "walk init_state pkgs' = Inr s'"
    and "same_graph pkgs pkgs'" and "one_record_per_module pkgs"
  shows "fmlookup (modules s) p = None \<longleftrightarrow> fmlookup (modules s') p = None"
    and "fmlookup (modules s) p = Some a \<Longrightarrow> fmlookup (modules s') p = Some a' \<Longrightarrow>
          coordinates (heap s ! a) = coordinates (heap s' ! a')"
proof -
  have fwd: "fmlookup (modules t') p \<noteq> None"
    if "walk init_state qs = Inr t" "walk init_state qs' = Inr t'" "same_graph qs qs'"
      "fmlookup (modules t) p \<noteq> None" for qs qs' t t'
  proof -
    from that(4) obtain b where "fmlookup (modules t) p = Some b" by auto
    from registry_origin [OF that(1) this] obtain pkg pm where "pkg \<in> set qs"
      and nb: "\<not> isBuiltin pkg" and pm: "pkg_Module pkg = Some pm" and p: "mod_Path pm = p"
      by blast
    with that(3) obtain pkg' where 1: "pkg' \<in> set qs'" and 2: "same_package pkg pkg'"
      unfolding same_graph_def by blast
    from same_package_fields [OF 2] nb pm have "\<not> isBuiltin pkg'" "pkg_Module pkg' = Some pm"
      by simp_all
    from walk_registers [OF that(2) 1 this] p show ?thesis by auto
  qed
  from fwd [OF assms(1,2,3)] fwd [OF assms(2,1) same_graph_sym [OF assms(3)]]
  show "fmlookup (modules s) p = None \<longleftrightarrow> fmlookup (modules s') p = None" by blast
  show "coordinates (heap s ! a) = coordinates (heap s' ! a')"
    if l: "fmlookup (modules s) p = Some a" and l': "fmlookup (modules s') p = Some a'"
  proof -
    from registry_origin [OF assms(1) l] obtain pkg pm where 1: "pkg \<in> set pkgs"
      and 2: "pkg_Module pkg = Some pm" and 3: "mod_Path pm = p"
      and 4: "coordinates (heap s ! a) = coordinates (new_Module pm)" by blast
    from registry_origin [OF assms(2) l'] obtain pkg' pm' where 5: "pkg' \<in> set pkgs'"
      and 6: "pkg_Module pkg' = Some pm'" and 7: "mod_Path pm' = p"
      and 8: "coordinates (heap s' ! a') = coordinates (new_Module pm')" by blast
    from 5 assms(3) obtain pkg2 where 9: "pkg2 \<in> set pkgs" and 10: "same_package pkg2 pkg'"
      unfolding same_graph_def by blast
    from same_package_fields(2) [OF 10] 6 have "pkg_Module pkg2 = Some pm'" by simp
    with assms(4) 1 9 2 3 7 have "pm = pm'" unfolding one_record_per_module_def by blast
    with 4 8 show ?thesis by simp
  qed
qed

lemma sorted_equal_mset:
  fixes xs ys :: "Path list"
  assumes "sorted xs" and "sorted ys" and "mset xs = mset ys"
  shows "xs = ys"
proof -
  from properties_for_sort [OF assms(3) assms(1)] have "sort ys = xs" .
  moreover from assms(2) have "sort ys = ys" by (rule sorted_sort_id)
  ultimately show ?thesis by simp
qed

lemma Imports_agree:
  assumes "wf_state s" and "wf_state s'" and "valid_orders e" and "valid_orders e'"
    and "edges s = edges s'"
    and "fmlookup (modules s) p = Some a" and "fmlookup (modules s') p = Some a'"
  shows "Imports e (heap s ! a) = Imports e' (heap s' ! a')"
proof (rule sorted_equal_mset)
  show "mset (Imports e (heap s ! a)) = mset (Imports e' (heap s' ! a'))"
  proof (rule multiset_eqI)
    fix q
    show "count (mset (Imports e (heap s ! a))) q = count (mset (Imports e' (heap s' ! a'))) q"
      using Imports_count_edges [OF assms(1,3,6), of q]
        Imports_count_edges [OF assms(2,4,7), of q] assms(5) by simp
  qed
qed (rule sorted_Imports)+

lemma Execute_agree:
  assumes "coordinates m = coordinates m'" and "Imports e m = Imports e' m'"
    and "hashDir e' = hashDir e" and "quote_other e' = quote_other e"
  shows "Execute e m = Execute e' m'"
proof -
  from assms(1) have c: "Path m = Path m'" "Version m = Version m'" "Dir m = Dir m'"
    by (simp_all add: coordinates_def)
  show ?thesis
    unfolding Execute_def ModSHA256_def c assms(2,3,4) ..
qed

lemma add_imports_error:
  "add_imports s a deps = Inl err \<Longrightarrow> err = NilDereference"
proof (induction deps arbitrary: s)
  case Nil
  then show ?case by simp
next
  case (Cons dep deps)
  show ?case
  proof (cases "add_import s a dep")
    case (Inl e)
    then have "e = NilDereference"
      by (auto simp: add_import_def split: if_splits option.splits)
    with Cons.prems Inl show ?thesis by simp
  next
    case (Inr s1)
    with Cons.prems Cons.IH [of s1] show ?thesis by simp
  qed
qed

lemma post_error:
  assumes "post s pkg = Inl err"
  shows "err = NilDereference \<or> fatal pkg"
proof (cases "fatal pkg")
  case True
  then show ?thesis by simp
next
  case False
  show ?thesis
  proof (cases "isBuiltin pkg \<or> pkg_Module pkg = None")
    case True
    with assms False show ?thesis by (auto simp: post_def fatal_def split: if_splits)
  next
    case nt: False
    then obtain pm where pm: "pkg_Module pkg = Some pm" and nb: "\<not> isBuiltin pkg" by auto
    with False have ne: "pkgErrors pkg = []" by (simp add: fatal_def)
    obtain a s1 where l: "lookup_or_create s pm = (a, s1)" by (cases "lookup_or_create s pm")
    with assms pm nb ne have "add_imports s1 a (map snd (pkg_Imports pkg)) = Inl err"
      by (simp add: post_def)
    then show ?thesis using add_imports_error by blast
  qed
qed

lemma post_fatal:
  assumes "fatal pkg"
  shows "\<exists>err. post s pkg = Inl err"
  using assms by (auto simp: fatal_def post_def)

lemma walk_error:
  "walk s pkgs = Inl err \<Longrightarrow> err = NilDereference \<or> (\<exists>pkg \<in> set pkgs. fatal pkg)"
proof (induction pkgs arbitrary: s)
  case Nil
  then show ?case by simp
next
  case (Cons pkg pkgs)
  show ?case
  proof (cases "post s pkg")
    case (Inl e)
    with Cons.prems post_error [OF Inl] show ?thesis by auto
  next
    case (Inr s1)
    with Cons.prems Cons.IH [of s1] show ?thesis by auto
  qed
qed

lemma walk_fatal:
  "pkg \<in> set pkgs \<Longrightarrow> fatal pkg \<Longrightarrow> \<exists>err. walk s pkgs = Inl err"
proof (induction pkgs arbitrary: s)
  case Nil
  then show ?case by simp
next
  case (Cons x pkgs)
  show ?case
  proof (cases "post s x")
    case (Inl e)
    then show ?thesis by simp
  next
    case (Inr s1)
    with post_fatal [of x s] have "\<not> fatal x" by auto
    with Cons.prems have "pkg \<in> set pkgs" by auto
    from Cons.IH [OF this Cons.prems(2), of s1] Inr show ?thesis by simp
  qed
qed

lemma same_package_fatal: "same_package p q \<Longrightarrow> fatal p = fatal q"
  using same_package_fields [of p q] by (simp add: fatal_def same_package_def)

lemma walk_outcomes_agree:
  assumes "same_graph pkgs pkgs'"
    and "walk init_state pkgs \<noteq> Inl NilDereference"
    and "walk init_state pkgs' \<noteq> Inl NilDereference"
  shows "(\<exists>s. walk init_state pkgs = Inr s) \<longleftrightarrow> (\<exists>s'. walk init_state pkgs' = Inr s')"
proof -
  have fwd: "\<exists>t'. walk init_state qs' = Inr t'"
    if "same_graph qs qs'" "walk init_state qs = Inr t"
      "walk init_state qs' \<noteq> Inl NilDereference" for qs qs' t
  proof (cases "walk init_state qs'")
    case (Inl err)
    with that(3) walk_error [OF Inl] obtain pkg' where "pkg' \<in> set qs'" and f: "fatal pkg'"
      by auto
    with that(1) obtain pkg where "pkg \<in> set qs" and "same_package pkg pkg'"
      unfolding same_graph_def by blast
    with f same_package_fatal have "fatal pkg" by blast
    from walk_fatal [OF \<open>pkg \<in> set qs\<close> this, of init_state] that(2) show ?thesis by simp
  next
    case (Inr t')
    then show ?thesis by blast
  qed
  from fwd [OF assms(1) _ assms(3)] fwd [OF same_graph_sym [OF assms(1)] _ assms(2)]
  show ?thesis by blast
qed

lemma emit_loop_agree:
  assumes "path_Join e' = path_Join e" and "hashDir e' = hashDir e"
    and "quote_other e' = quote_other e" and "fs_write e' = fs_write e"
    and "\<And>p. fmlookup (modules s) p = None \<longleftrightarrow> fmlookup (modules s') p = None"
    and "\<And>p a a'. fmlookup (modules s) p = Some a \<Longrightarrow> fmlookup (modules s') p = Some a' \<Longrightarrow>
          coordinates (heap s ! a) = coordinates (heap s' ! a')
          \<and> Imports e (heap s ! a) = Imports e' (heap s' ! a')"
  shows "emit_loop e s paths written = emit_loop e' s' paths written"
proof (induction paths arbitrary: written)
  case Nil
  show ?case by simp
next
  case (Cons p paths)
  show ?case
  proof (cases "fmlookup (modules s) p")
    case None
    with assms(5) [of p] have "fmlookup (modules s') p = None" by simp
    with None show ?thesis by simp
  next
    case (Some a)
    with assms(5) [of p] obtain a' where a': "fmlookup (modules s') p = Some a'" by auto
    from assms(6) [OF Some a'] have c: "coordinates (heap s ! a) = coordinates (heap s' ! a')"
      and i: "Imports e (heap s ! a) = Imports e' (heap s' ! a')" by simp_all
    from c have f: "Path (heap s ! a) = Path (heap s' ! a')"
      "ReplacePath (heap s ! a) = ReplacePath (heap s' ! a')"
      by (simp_all add: coordinates_def)
    have x: "IsExternal (heap s ! a) = IsExternal (heap s' ! a')"
      by (simp add: IsExternal_def f)
    have ex: "Execute e (heap s ! a) = Execute e' (heap s' ! a')"
      using c i assms(2,3) by (rule Execute_agree)
    show ?thesis
      unfolding emit_loop.simps Some a' option.case Let_def f x ex assms(1,4) Cons.IH ..
  qed
qed

lemma emit_loop_sorted_files:
  assumes "wf_state s" and "sorted paths" and "distinct paths"
  shows "\<exists>ps. set ps \<subseteq> set paths \<and> sorted ps \<and> distinct ps
           \<and> map fst (files (emit_loop e s paths written))
               = map fst written @ map (path_Join e ''third_party/gopkgs'') ps"
  using assms(2,3)
proof (induction paths arbitrary: written)
  case Nil
  show ?case by simp
next
  case (Cons p paths)
  from Cons.prems have sp: "sorted paths" and dp: "distinct paths"
    and le: "\<forall>x \<in> set paths. p \<le> x" and nin: "p \<notin> set paths" by simp_all
  note IH = Cons.IH [OF sp dp]
  show ?case
  proof (cases "fmlookup (modules s) p")
    case None
    then have "map fst (files (emit_loop e s (p # paths) written))
        = map fst written @ map (path_Join e ''third_party/gopkgs'') []" by simp
    then show ?thesis by (intro exI [of _ "[]"]) simp
  next
    case (Some a)
    have pa: "Path (heap s ! a) = p" using wf_stateD(2) [OF assms(1) Some] .
    from emit_loop_Cons_cases [OF Some, of e paths written]
    consider "emit_loop e s (p # paths) written = emit_loop e s paths written"
      | st where "emit_loop e s (p # paths) written = \<lparr>files = written, status = st\<rparr>"
      | data where "emit_loop e s (p # paths) written
            = emit_loop e s paths
              (written @ [(path_Join e ''third_party/gopkgs'' p, ''default.nix'', data)])"
      unfolding pa by blast
    then show ?thesis
    proof cases
      case 1
      from IH [of written] obtain ps where "set ps \<subseteq> set paths" "sorted ps" "distinct ps"
        "map fst (files (emit_loop e s paths written))
               = map fst written @ map (path_Join e ''third_party/gopkgs'') ps" by blast
      with 1 show ?thesis by (intro exI [of _ ps]) auto
    next
      case 2
      then show ?thesis by (intro exI [of _ "[]"]) simp
    next
      case 3
      from IH [of "written @ [(path_Join e ''third_party/gopkgs'' p, ''default.nix'', data)]"]
      obtain ps where ps: "set ps \<subseteq> set paths" "sorted ps" "distinct ps"
        "map fst (files (emit_loop e s paths
            (written @ [(path_Join e ''third_party/gopkgs'' p, ''default.nix'', data)])))
          = map fst (written @ [(path_Join e ''third_party/gopkgs'' p, ''default.nix'', data)])
            @ map (path_Join e ''third_party/gopkgs'') ps" by blast
      from ps(1) le nin have "sorted (p # ps)" "distinct (p # ps)" "set (p # ps) \<subseteq> set (p # paths)"
        using ps(2,3) by auto
      moreover from ps(4) 3 have "map fst (files (emit_loop e s (p # paths) written))
          = map fst written @ map (path_Join e ''third_party/gopkgs'') (p # ps)" by simp
      ultimately show ?thesis by (intro exI [of _ "p # ps"]) blast
    qed
  qed
qed

lemma valid_orders_update:
  "hashDir (e\<lparr>ord_modules := f, ord_deps := g, ord_pkgs := h\<rparr>) = hashDir e"
  "path_Join (e\<lparr>ord_modules := f, ord_deps := g, ord_pkgs := h\<rparr>) = path_Join e"
  "quote_other (e\<lparr>ord_modules := f, ord_deps := g, ord_pkgs := h\<rparr>) = quote_other e"
  "fs_write (e\<lparr>ord_modules := f, ord_deps := g, ord_pkgs := h\<rparr>) = fs_write e"
  by simp_all

lemma emit_agree:
  assumes "valid_orders e" and "valid_orders e'"
    and "path_Join e' = path_Join e" and "hashDir e' = hashDir e"
    and "quote_other e' = quote_other e" and "fs_write e' = fs_write e"
    and "walk init_state pkgs = Inr s" and "walk init_state pkgs' = Inr s'"
    and "same_graph pkgs pkgs'" and "one_record_per_module pkgs"
  shows "emit e s = emit e' s'"
proof -
  have wf: "wf_state s" "wf_state s'"
    using wf_walk [OF wf_init assms(7)] wf_walk [OF wf_init assms(8)] by simp_all
  have ed: "edges s = edges s'"
    using edges_of_walk [OF assms(7)] edges_of_walk [OF assms(8)]
      same_graph_edges [OF assms(9)] by simp
  note ra = registry_agrees [OF assms(7,8,9,10)]
  have dom: "fmdom' (modules s) = fmdom' (modules s')"
  proof (rule set_eqI)
    fix p
    show "p \<in> fmdom' (modules s) \<longleftrightarrow> p \<in> fmdom' (modules s')"
      using ra(1) [of p] by (auto simp: fmlookup_dom'_iff)
  qed
  from assms(1,2) have ro: "range_order (ord_modules e)" "range_order (ord_modules e')"
    by (simp_all add: valid_orders_def)
  have "emit e s = emit_loop e s (sorted_list_of_set (fmdom' (modules s))) []"
    using emit_paths [OF ro(1)] .
  also have "\<dots> = emit_loop e' s' (sorted_list_of_set (fmdom' (modules s))) []"
  proof (rule emit_loop_agree [OF assms(3,4,5,6)])
    fix p
    show "fmlookup (modules s) p = None \<longleftrightarrow> fmlookup (modules s') p = None" by (rule ra(1))
  next
    fix p a a'
    assume l: "fmlookup (modules s) p = Some a" and l': "fmlookup (modules s') p = Some a'"
    from ra(2) [OF l l'] Imports_agree [OF wf assms(1,2) ed l l']
    show "coordinates (heap s ! a) = coordinates (heap s' ! a')
          \<and> Imports e (heap s ! a) = Imports e' (heap s' ! a')" by simp
  qed
  also have "\<dots> = emit e' s'" unfolding dom using emit_paths [OF ro(2)] by simp
  finally show ?thesis .
qed

lemma emit_loop_done_all:
  assumes "wf_state s" and "status (emit_loop e s paths written) = Done"
  shows "\<exists>fs. files (emit_loop e s paths written) = written @ fs
           \<and> list_all2 (descriptor_of e s) fs (filter (has_descriptor s) paths)"
  using assms(2)
proof (induction paths arbitrary: written)
  case Nil
  show ?case by simp
next
  case (Cons p paths)
  show ?case
  proof (cases "fmlookup (modules s) p")
    case None
    with Cons.prems show ?thesis by simp
  next
    case (Some a)
    have pa: "Path (heap s ! a) = p" using wf_stateD(2) [OF assms(1) Some] .
    show ?thesis
    proof (cases "has_descriptor s p")
      case False
      from emit_loop_Cons_cases [OF Some, of e paths written] Cons.prems False Some
      have "emit_loop e s (p # paths) written = emit_loop e s paths written"
        by (auto simp: has_descriptor_def)
      with Cons.prems Cons.IH [of written] False show ?thesis by simp
    next
      case True
      with Some have x: "IsExternal (heap s ! a)"
        and l: "\<not> (ReplacePath (heap s ! a) \<noteq> [] \<and> hd (ReplacePath (heap s ! a)) = CHR ''.'')"
        by (simp_all add: has_descriptor_def)
      note r = emit_loop_render [OF Some x l, of e paths written]
      let ?dir = "path_Join e ''third_party/gopkgs'' p"
      from Cons.prems obtain data where d: "Execute e (heap s ! a) = Inr data"
        unfolding r by (cases "Execute e (heap s ! a)") auto
      from Cons.prems d have w: "fs_write e ?dir ''default.nix'' data = None"
        unfolding r pa by (cases "fs_write e ?dir ''default.nix'' data") auto
      from d w have eq: "emit_loop e s (p # paths) written
            = emit_loop e s paths (written @ [(?dir, ''default.nix'', data)])"
        unfolding r pa by simp
      with Cons.prems Cons.IH [of "written @ [(?dir, ''default.nix'', data)]"]
      obtain fs where fs: "files (emit_loop e s paths (written @ [(?dir, ''default.nix'', data)]))
            = (written @ [(?dir, ''default.nix'', data)]) @ fs"
        and a2: "list_all2 (descriptor_of e s) fs (filter (has_descriptor s) paths)"
        by auto
      have "descriptor_of e s (?dir, ''default.nix'', data) p"
        unfolding descriptor_of_def using Some d by blast
      with a2 True have "list_all2 (descriptor_of e s) ((?dir, ''default.nix'', data) # fs)
          (filter (has_descriptor s) (p # paths))" by simp
      moreover from fs eq have "files (emit_loop e s (p # paths) written)
          = written @ (?dir, ''default.nix'', data) # fs" by simp
      ultimately show ?thesis by blast
    qed
  qed
qed

lemma run_done_files:
  assumes "walk init_state pkgs = Inr s" and "valid_orders e" and "status (run e pkgs) = Done"
  shows "list_all2 (descriptor_of e s) (files (run e pkgs))
           (filter (has_descriptor s) (sorted_list_of_set (fmdom' (modules s))))"
proof -
  from assms(2) have ro: "range_order (ord_modules e)" by (simp add: valid_orders_def)
  have r: "run e pkgs = emit_loop e s (sorted_list_of_set (fmdom' (modules s))) []"
    using assms(1) emit_paths [OF ro] by (simp add: run_def)
  from emit_loop_done_all [OF wf_walk [OF wf_init assms(1)] assms(3) [unfolded r]]
  show ?thesis unfolding r by simp
qed

section \<open>Claims\<close>

text \<open>
  Claim C6. For every import path, \<^const>\<open>isBuiltin\<close> is true exactly when the part of the
  path before its first \<open>/\<close> (the whole path when it has none) contains no \<open>.\<close>. The
  function is total and has no error result: its type is \<^typ>\<open>Package \<Rightarrow> bool\<close>.
\<close>

theorem isBuiltin_iff_first_segment_dotless:
  "isBuiltin pkg \<longleftrightarrow> CHR ''.'' \<notin> set (takeWhile (\<lambda>c. c \<noteq> CHR ''/'') (pkg_PkgPath pkg))"
proof (cases "CHR ''/'' \<in> set (pkg_PkgPath pkg)")
  case True
  then have "IndexByte (pkg_PkgPath pkg) (CHR ''/'') \<noteq> - 1" by (simp add: IndexByte_none)
  with True show ?thesis
    by (simp add: isBuiltin_def Let_def take_IndexByte IndexByte_none)
next
  case False
  from False have tw: "takeWhile (\<lambda>c. c \<noteq> CHR ''/'') (pkg_PkgPath pkg) = pkg_PkgPath pkg"
    by (rule takeWhile_absent)
  show ?thesis
    using False unfolding tw by (simp add: isBuiltin_def Let_def IndexByte_none)
qed

theorem isBuiltin_iff_first_segment_dotless_witness:
  "isBuiltin (Package ''http'' ''net/http.x'' [] [] None)
   \<and> \<not> isBuiltin (Package ''packages'' ''golang.org/x/tools/go/packages'' [] [] None)
   \<and> isBuiltin (Package '''' '''' [] [] None)"
  using isBuiltin_iff_first_segment_dotless [of "Package ''http'' ''net/http.x'' [] [] None"]
    isBuiltin_iff_first_segment_dotless
      [of "Package ''packages'' ''golang.org/x/tools/go/packages'' [] [] None"]
    isBuiltin_iff_first_segment_dotless [of "Package '''' '''' [] [] None"]
  by simp

text \<open>
  Claim C7. In the attribute path of a dependency, every segment of the path between
  \<open>/\<close> separators that is not a bare identifier (it does not match the identifier
  pattern, or it is a reserved keyword) is rendered as a quoted string, every other segment
  is rendered as it is, and the rendered segments are joined with \<open>.\<close>. The segments are
  the pieces of the path between the separators: none holds a \<open>/\<close>, and joined with \<open>/\<close>
  they give the path back. The segment \<open>1bad\<close> is rendered in double quotes.
\<close>

theorem NixAttr_segments:
  "NixAttr other p =
     Join (map (\<lambda>name. if nixIdentRe name \<and> \<not> nixKeyword name then name
                        else Sprintf_q other name) (Split p (CHR ''/''))) ''.''
   \<and> Join (Split p (CHR ''/'')) ''/'' = p
   \<and> (\<forall>seg \<in> set (Split p (CHR ''/'')). CHR ''/'' \<notin> set seg)
   \<and> NixAttr other ''1bad'' = CHR 0x22 # ''1bad'' @ [CHR 0x22]"
proof -
  let ?names = "Split p (CHR ''/'')"
  have "fold (NixAttr_step other) [0..<length ?names] ?names
      = map (\<lambda>name. if \<not> nixIdentRe name \<or> nixKeyword name then Sprintf_q other name else name) ?names"
    using NixAttr_fold_prefix [of "length ?names" ?names other] by simp
  also have "\<dots> = map (\<lambda>name. if nixIdentRe name \<and> \<not> nixKeyword name then name
                        else Sprintf_q other name) ?names"
    by (rule map_cong) auto
  finally have a: "NixAttr other p =
     Join (map (\<lambda>name. if nixIdentRe name \<and> \<not> nixKeyword name then name
                        else Sprintf_q other name) ?names) ''.''"
    by (simp add: NixAttr_def Let_def)
  have b: "Join ?names ''/'' = p" using Join_Split [of p "CHR ''/''"] by simp
  have c: "\<forall>seg \<in> set ?names. CHR ''/'' \<notin> set seg" using Split_no_sep by blast
  have d: "NixAttr other ''1bad'' = CHR 0x22 # ''1bad'' @ [CHR 0x22]"
    by (simp add: NixAttr_def NixAttr_step_def nixIdentRe_def ident_first_def Sprintf_q_def
        printable_ascii_def)
  from a b c d show ?thesis by blast
qed

theorem NixAttr_segments_witness:
  "NixAttr (\<lambda>s. s) ''golang.org/x/rec/1bad/go-tools''
     = [CHR 0x22] @ ''golang.org'' @ [CHR 0x22] @ ''.x.'' @ [CHR 0x22] @ ''rec'' @ [CHR 0x22]
       @ ''.'' @ [CHR 0x22] @ ''1bad'' @ [CHR 0x22] @ ''.go-tools''"
  using NixAttr_segments [of "\<lambda>s. s" "''golang.org/x/rec/1bad/go-tools''"]
  by (simp add: nixIdentRe_def nixKeyword_def ident_first_def ident_rest_def Sprintf_q_def
      printable_ascii_def)

text \<open>
  Claim C9. When the content hash of a module is asked for and the module's source
  directory is the empty string, \<open>ModSHA256\<close> fails with the error that names the module,
  whatever the hashing of a directory would answer (it is not consulted), the rendering of
  the descriptor fails with that error, and the run stops there with the files written so
  far. A digest comes only from a module with a non-empty source directory.
\<close>

theorem ModSHA256_needs_dir:
  "(Dir m = [] \<longrightarrow>
      ModSHA256 (e\<lparr>hashDir := h\<rparr>) m = Inl (ModuleWithoutDir (Path m))
      \<and> Execute (e\<lparr>hashDir := h\<rparr>) m = Inl (ModuleWithoutDir (Path m))
      \<and> (fmlookup (modules s) p = Some a \<and> heap s ! a = m \<and> IsExternal m
           \<and> \<not> (ReplacePath m \<noteq> [] \<and> hd (ReplacePath m) = CHR ''.'')
          \<longrightarrow> emit_loop (e\<lparr>hashDir := h\<rparr>) s (p # paths) written
                = \<lparr>files = written, status = Panic (ModuleWithoutDir (Path m))\<rparr>))
   \<and> (ModSHA256 e m = Inr digest \<longrightarrow> Dir m \<noteq> [] \<and> hashDir e (Dir m) = Inr digest)"
  by (auto simp: ModSHA256_def Execute_def Let_def split: sum.splits)

theorem ModSHA256_needs_dir_witness:
  "emit_loop (example_env\<lparr>hashDir := (\<lambda>d. Inl ''unreadable'')\<rparr>)
     \<lparr>heap = [\<lparr>Path = ''beta.example/bar'', Version = ''1.2.0'', Dir = [], ReplacePath = [],
               Deps = fmempty\<rparr>],
      modules = fmupd ''beta.example/bar'' 0 fmempty\<rparr>
     [''beta.example/bar''] []
   = \<lparr>files = [], status = Panic (ModuleWithoutDir ''beta.example/bar'')\<rparr>
   \<and> hashDir example_env ''/cache/bar'' = Inr ''0digest''"
  using ModSHA256_needs_dir [where
     m = "\<lparr>Path = ''beta.example/bar'', Version = ''1.2.0'', Dir = [], ReplacePath = [],
               Deps = fmempty\<rparr>"
     and e = example_env and h = "(\<lambda>d. Inl ''unreadable'')"
     and s = "\<lparr>heap = [\<lparr>Path = ''beta.example/bar'', Version = ''1.2.0'', Dir = [],
                         ReplacePath = [], Deps = fmempty\<rparr>],
      modules = fmupd ''beta.example/bar'' 0 fmempty\<rparr>"
     and p = "''beta.example/bar''" and a = 0 and paths = "[]" and written = "[]"
     and digest = "''0digest''"]
   ModSHA256_needs_dir [where
     m = "\<lparr>Path = ''beta.example/bar'', Version = ''1.2.0'', Dir = ''/cache/bar'',
           ReplacePath = [], Deps = fmempty\<rparr>"
     and e = example_env and h = "(\<lambda>d. Inl ''unreadable'')"
     and s = init_state
     and p = "''beta.example/bar''" and a = 0 and paths = "[]" and written = "[]"
     and digest = "''0digest''"]
  by (simp add: IsExternal_def HasPrefix_def ModSHA256_def example_env_def)

text \<open>
  Claim C3, as the code has it. For a visited package that is not builtin, carries no
  package error and has no module: it is skipped, the state unchanged and no error raised,
  when its name is \<open>main\<close> and its import path ends in \<open>.test\<close>, or when its import path ends
  in \<open>_test\<close>; every other such package stops the walk with the error that names the
  package path, and the run writes no file.
\<close>

theorem post_without_module:
  assumes "\<not> isBuiltin pkg" and "pkgErrors pkg = []" and "pkg_Module pkg = None"
  shows "post s pkg =
           (if (pkg_Name pkg = ''main'' \<and> HasSuffix (pkg_PkgPath pkg) ''.test'')
               \<or> HasSuffix (pkg_PkgPath pkg) ''_test''
            then Inr s else Inl (PackageWithoutModule (pkg_PkgPath pkg)))
         \<and> (post s pkg \<noteq> Inr s \<longrightarrow>
              walk s (pkg # rest) = Inl (PackageWithoutModule (pkg_PkgPath pkg))
              \<and> (walk init_state before = Inr s \<longrightarrow>
                   run e (before @ pkg # rest)
                   = \<lparr>files = [], status = Panic (PackageWithoutModule (pkg_PkgPath pkg))\<rparr>))"
  using assms by (auto simp: post_def run_def walk_append)

theorem post_without_module_witness:
  "post init_state (Package ''main'' ''a.example/foo.test'' [] [] None) = Inr init_state
   \<and> post init_state (Package ''foo_test'' ''a.example/foo_test'' [] [] None) = Inr init_state
   \<and> run example_env ([] @ [Package ''foo'' ''a.example/foo'' [] [] None])
     = \<lparr>files = [], status = Panic (PackageWithoutModule ''a.example/foo'')\<rparr>"
proof -
  have 1: "post init_state (Package ''main'' ''a.example/foo.test'' [] [] None) = Inr init_state"
    using post_without_module [where pkg = "Package ''main'' ''a.example/foo.test'' [] [] None"
        and s = init_state and rest = "[]" and before = "[]" and e = example_env]
    by (simp add: isBuiltin_def pkgErrors_def HasSuffix_def)
  have 2: "post init_state (Package ''foo_test'' ''a.example/foo_test'' [] [] None)
             = Inr init_state"
    using post_without_module [where pkg = "Package ''foo_test'' ''a.example/foo_test'' [] [] None"
        and s = init_state and rest = "[]" and before = "[]" and e = example_env]
    by (simp add: isBuiltin_def pkgErrors_def HasSuffix_def)
  have 3: "run example_env ([] @ [Package ''foo'' ''a.example/foo'' [] [] None])
     = \<lparr>files = [], status = Panic (PackageWithoutModule ''a.example/foo'')\<rparr>"
    using post_without_module [where pkg = "Package ''foo'' ''a.example/foo'' [] [] None"
        and s = init_state and rest = "[]" and before = "[]" and e = example_env]
    by (simp add: isBuiltin_def pkgErrors_def HasSuffix_def)
  from 1 2 3 show ?thesis by blast
qed

text \<open>
  The claim as it is written fails: a package without a module whose import path ends in
  \<open>.test\<close> and whose name is not \<open>main\<close> is not skipped; the walk stops with the error.
\<close>

theorem dot_test_package_not_main_counterexample:
  "pkg_Module (Package ''foo'' ''a.example/foo.test'' [] [] None) = None
   \<and> HasSuffix (pkg_PkgPath (Package ''foo'' ''a.example/foo.test'' [] [] None)) ''.test''
   \<and> post init_state (Package ''foo'' ''a.example/foo.test'' [] [] None)
       = Inl (PackageWithoutModule ''a.example/foo.test'')"
  by (simp add: post_def isBuiltin_def pkgErrors_def HasSuffix_def)

text \<open>
  Claim C4. The claim holds of the version and the source directory, and fails of
  \<open>ReplacePath\<close>, against the comment on the field in the source (\<open>If not empty, the path
  that this module's source is located at in the repo\<close>): line 127 stores the path of every
  replacement. For the module \<open>a.example/foo\<close> that a replace directive redirects to the
  module \<open>b.example/fork\<close> at \<open>v1.2.0\<close>, the walk makes a record whose \<open>ReplacePath\<close> is
  \<open>b.example/fork\<close>: not empty, and no local path. Its version is the replacement's without
  the leading \<open>v\<close>, and its source directory is the replacement's.
\<close>

theorem replace_path_of_module_replacement:
  "walk init_state [example_forked]
     = Inr \<lparr>heap = [\<lparr>Path = ''a.example/foo'', Version = ''1.2.0'',
                     Dir = ''/cache/fork@v1.2.0'', ReplacePath = ''b.example/fork'',
                     Deps = fmempty\<rparr>],
            modules = fmupd ''a.example/foo'' 0 fmempty\<rparr>
   \<and> ''b.example/fork'' \<noteq> []
   \<and> hd ''b.example/fork'' \<noteq> CHR ''.'' \<and> hd ''b.example/fork'' \<noteq> CHR ''/''"
  by (simp add: example_forked_def init_state_def post_def isBuiltin_def pkgErrors_def
      lookup_or_create_def new_Module_def TrimPrefix_def HasPrefix_def)

text \<open>
  Claim C2. At every point of a walk from the empty registry, no module of the registry is
  a key of its own \<open>Deps\<close>: after any packages have been visited, after the record of the
  next package's module has been looked up or made, and after any number of that package's
  imports have been handled. An import owned by the importer's own module leaves the
  state as it is: no edge is added for it.
\<close>

theorem no_module_depends_on_itself:
  assumes "walk init_state pkgs = Inr s"
    and "lookup_or_create s pm = (a, s1)"
    and "add_imports s1 a deps = Inr s2"
  shows "no_self_edge s \<and> no_self_edge s1 \<and> no_self_edge s2
    \<and> (\<forall>dep dm. pkg_Module dep = Some dm \<and> mod_Path dm = mod_Path pm
          \<longrightarrow> add_import s1 a dep = Inr s1)"
proof -
  have l0: "\<forall>c < length (heap init_state). fmlookup (Deps (heap init_state ! c)) c = None"
    by (simp add: init_state_def)
  note l = loopfree_walk [OF l0 assms(1)]
  note w = wf_walk [OF wf_init assms(1)]
  note l1 = loopfree_lookup_or_create [OF l assms(2)]
  note w1 = wf_lookup_or_create [OF w assms(2)]
  note l2 = loopfree_add_imports [OF l1 assms(3)]
  note w2 = wf_add_imports [OF w1 assms(3)]
  have reg: "fmlookup (modules s1) (mod_Path pm) = Some a"
    using lookup_or_create_frame(4) [OF assms(2)] .
  have "\<forall>dep dm. pkg_Module dep = Some dm \<and> mod_Path dm = mod_Path pm
          \<longrightarrow> add_import s1 a dep = Inr s1"
    using reg by (auto simp: add_import_def)
  with no_self_edgeI [OF w l] no_self_edgeI [OF w1 l1] no_self_edgeI [OF w2 l2]
  show ?thesis by blast
qed

theorem no_module_depends_on_itself_witness:
  "\<exists>s a s1 s2. walk init_state [example_fmt, example_x, example_a] = Inr s
     \<and> lookup_or_create s example_alpha = (a, s1)
     \<and> add_imports s1 a [example_a, example_x, example_fmt] = Inr s2
     \<and> fmlookup (Deps (heap s2 ! a)) a = None
     \<and> fmdom' (Deps (heap s2 ! a)) = {0}
     \<and> no_self_edge s2"
proof -
  have "\<exists>s a s1 s2. walk init_state [example_fmt, example_x, example_a] = Inr s
     \<and> lookup_or_create s example_alpha = (a, s1)
     \<and> add_imports s1 a [example_a, example_x, example_fmt] = Inr s2
     \<and> fmlookup (Deps (heap s2 ! a)) a = None
     \<and> fmdom' (Deps (heap s2 ! a)) = {0}"
    by (simp add: example_fmt_def example_x_def example_a_def example_alpha_def
        example_beta_def init_state_def post_def isBuiltin_def pkgErrors_def
        lookup_or_create_def new_Module_def TrimPrefix_def HasPrefix_def add_import_def
        Add_at_Dep_eq Let_def)
  then obtain s a s1 s2 where 1: "walk init_state [example_fmt, example_x, example_a] = Inr s"
    and 2: "lookup_or_create s example_alpha = (a, s1)"
    and 3: "add_imports s1 a [example_a, example_x, example_fmt] = Inr s2"
    and 4: "fmlookup (Deps (heap s2 ! a)) a = None"
    and 5: "fmdom' (Deps (heap s2 ! a)) = {0}"
    by blast
  from no_module_depends_on_itself [OF 1 2 3] have "no_self_edge s2" by blast
  with 1 2 3 4 5 show ?thesis by blast
qed

text \<open>
  Claim C10. When every import of a visited package that is not builtin has a module, and
  the registry holds a record for that module already, visiting the package does not end in
  a nil pointer dereference: neither \<open>dep.Module.Path\<close> nor \<open>depMod.Path\<close> panics.
\<close>

theorem imports_dereferenced_safely:
  assumes "\<forall>dep \<in> snd ` set (pkg_Imports pkg). \<not> isBuiltin dep \<longrightarrow>
             (\<exists>dm. pkg_Module dep = Some dm \<and> fmlookup (modules s) (mod_Path dm) \<noteq> None)"
  shows "post s pkg \<noteq> Inl NilDereference"
proof (cases "isBuiltin pkg \<or> pkgErrors pkg \<noteq> [] \<or> pkg_Module pkg = None")
  case True
  then show ?thesis by (auto simp: post_def)
next
  case False
  then obtain pm where pm: "pkg_Module pkg = Some pm" and nb: "\<not> isBuiltin pkg"
    and ne: "pkgErrors pkg = []" by auto
  obtain a s1 where l: "lookup_or_create s pm = (a, s1)" by (cases "lookup_or_create s pm")
  have "\<forall>dep \<in> set (map snd (pkg_Imports pkg)). \<not> isBuiltin dep \<longrightarrow>
             (\<exists>dm. pkg_Module dep = Some dm \<and> fmlookup (modules s1) (mod_Path dm) \<noteq> None)"
  proof (intro ballI impI)
    fix dep assume d: "dep \<in> set (map snd (pkg_Imports pkg))" and b: "\<not> isBuiltin dep"
    with assms obtain dm b' where "pkg_Module dep = Some dm"
      and "fmlookup (modules s) (mod_Path dm) = Some b'" by auto
    with lookup_or_create_frame(3) [OF l] 
    show "\<exists>dm. pkg_Module dep = Some dm \<and> fmlookup (modules s1) (mod_Path dm) \<noteq> None"
      by auto
  qed
  from add_imports_no_nil [OF this] pm nb ne l show ?thesis
    by (simp add: post_def)
qed

theorem imports_dereferenced_safely_witness:
  "\<exists>s. walk init_state [example_fmt, example_x] = Inr s
     \<and> post s example_a \<noteq> Inl NilDereference
     \<and> post init_state example_a = Inl NilDereference"
proof -
  have "\<exists>s. walk init_state [example_fmt, example_x] = Inr s
     \<and> fmlookup (modules s) ''beta.example/bar'' \<noteq> None"
    by (simp add: example_fmt_def example_x_def example_beta_def init_state_def post_def
        isBuiltin_def pkgErrors_def lookup_or_create_def new_Module_def TrimPrefix_def
        HasPrefix_def add_import_def Let_def)
  then obtain s where 1: "walk init_state [example_fmt, example_x] = Inr s"
    and 2: "fmlookup (modules s) ''beta.example/bar'' \<noteq> None" by blast
  have "post s example_a \<noteq> Inl NilDereference"
    using imports_dereferenced_safely [of example_a s] 2
    by (simp add: example_a_def example_x_def example_beta_def isBuiltin_def)
  moreover have "post init_state example_a = Inl NilDereference"
    by (simp add: example_a_def example_x_def example_alpha_def example_beta_def
        init_state_def post_def isBuiltin_def pkgErrors_def lookup_or_create_def new_Module_def
        TrimPrefix_def HasPrefix_def add_import_def Let_def)
  ultimately show ?thesis using 1 by blast
qed

text \<open>
  Claim C5. In a run whose walk has ended, take an external module of the registry whose
  replace path begins with \<open>.\<close>, where \<open>path.Join\<close> of the output root and the module path is
  the two joined by \<open>/\<close> (as it is for a clean module path). The loop over the sorted module
  paths comes to the module after the modules before it; unless one of those has ended the
  run already, then: when the replace path differs from \<open>./third_party/gopkgs/\<close> followed by
  the module path, the run ends with exit status 1 and the diagnostic, having written only
  the files of the modules before; when it is equal, the run goes on with the modules
  after it. With a differing replace path the run never ends with success, and in either
  case no file of the run is the descriptor of this module.
\<close>

theorem run_at_local_replace_path:
  assumes "walk init_state pkgs = Inr s" and "range_order (ord_modules e)"
    and "fmlookup (modules s) p = Some a" and "IsExternal (heap s ! a)"
    and "ReplacePath (heap s ! a) \<noteq> []" and "hd (ReplacePath (heap s ! a)) = CHR ''.''"
    and "path_Join e ''third_party/gopkgs'' p = ''third_party/gopkgs/'' @ p"
  shows "\<exists>before after.
      sortPaths (ord_modules e (fmdom' (modules s))) = before @ p # after
      \<and> p \<notin> set before \<and> p \<notin> set after
      \<and> run e pkgs =
          (if status (emit_loop e s before []) \<noteq> Done then emit_loop e s before []
           else if ReplacePath (heap s ! a) \<noteq> ''./third_party/gopkgs/'' @ p
           then \<lparr>files = files (emit_loop e s before []),
                 status = Exit1 (''replace points at //'' @ ReplacePath (heap s ! a)
                                 @ '', expected it to point at //third_party/gopkgs/'' @ p @ nl)\<rparr>
           else emit_loop e s after (files (emit_loop e s before [])))
      \<and> (ReplacePath (heap s ! a) \<noteq> ''./third_party/gopkgs/'' @ p
            \<longrightarrow> status (run e pkgs) \<noteq> Done)
      \<and> (\<forall>f \<in> set (files (run e pkgs)).
            \<exists>p' a' data. p' \<noteq> p \<and> fmlookup (modules s) p' = Some a'
              \<and> Execute e (heap s ! a') = Inr data
              \<and> f = (path_Join e ''third_party/gopkgs'' p', ''default.nix'', data))"
proof -
  have wf: "wf_state s" using wf_walk [OF wf_init assms(1)] .
  have pa: "Path (heap s ! a) = p" using wf_stateD(2) [OF wf assms(3)] .
  have r: "run e pkgs = emit e s" using assms(1) by (simp add: run_def)
  from emit_split [OF assms(2,3)] obtain before after where
    sp: "sortPaths (ord_modules e (fmdom' (modules s))) = before @ p # after"
    and nb: "p \<notin> set before" and na: "p \<notin> set after"
    and em: "emit e s =
               (if status (emit_loop e s before []) = Done
                then emit_loop e s (p # after) (files (emit_loop e s before []))
                else emit_loop e s before [])"
    by blast
  let ?r = "emit_loop e s before []"
  let ?exit = "\<lparr>files = files ?r,
                 status = Exit1 (''replace points at //'' @ ReplacePath (heap s ! a)
                                 @ '', expected it to point at //third_party/gopkgs/'' @ p @ nl)\<rparr>"
  have at: "emit_loop e s (p # after) (files ?r) =
          (if ReplacePath (heap s ! a) \<noteq> ''./third_party/gopkgs/'' @ p then ?exit
           else emit_loop e s after (files ?r))"
    using emit_loop_local_replace [OF assms(3,4,5,6), of e after "files ?r"] assms(7)
    by (simp add: pa)
  have eq: "run e pkgs =
          (if status ?r \<noteq> Done then ?r
           else if ReplacePath (heap s ! a) \<noteq> ''./third_party/gopkgs/'' @ p then ?exit
           else emit_loop e s after (files ?r))"
    unfolding r em at by simp
  have fail: "status (run e pkgs) \<noteq> Done"
    if "ReplacePath (heap s ! a) \<noteq> ''./third_party/gopkgs/'' @ p"
    using that unfolding eq by simp
  have files: "\<exists>p' a' data. p' \<noteq> p \<and> fmlookup (modules s) p' = Some a'
              \<and> Execute e (heap s ! a') = Inr data
              \<and> f = (path_Join e ''third_party/gopkgs'' p', ''default.nix'', data)"
    if f: "f \<in> set (files (run e pkgs))" for f
  proof -
    from f have "f \<in> set (files (emit_loop e s (before @ p # after) []))"
      by (simp add: r emit_def sp)
    from emit_loop_files [OF this] obtain p' a' data where
      1: "fmlookup (modules s) p' = Some a'"
      and 2: "\<not> (ReplacePath (heap s ! a') \<noteq> [] \<and> hd (ReplacePath (heap s ! a')) = CHR ''.'')"
      and 3: "Execute e (heap s ! a') = Inr data"
      and 4: "f = (path_Join e ''third_party/gopkgs'' (Path (heap s ! a')), ''default.nix'', data)"
      by auto
    have "p' \<noteq> p"
    proof
      assume "p' = p"
      with 1 assms(3) have "a' = a" by simp
      with 2 assms(5,6) show False by simp
    qed
    moreover have "Path (heap s ! a') = p'" using wf_stateD(2) [OF wf 1] .
    ultimately show ?thesis using 1 3 4 by auto
  qed
  from sp nb na eq fail files show ?thesis by blast
qed

theorem run_at_local_replace_path_witness:
  "run example_env [example_fmt, example_x, example_vendored]
     = \<lparr>files = files (run example_env [example_fmt, example_x]), status = Done\<rparr>
   \<and> length (files (run example_env [example_fmt, example_x])) = 1
   \<and> run example_env [example_fmt, example_x, example_misplaced]
     = \<lparr>files = [],
        status = Exit1 (''replace points at //./vendor/foo, expected it to point at ''
                        @ ''//third_party/gopkgs/alpha.example/foo'' @ nl)\<rparr>
   \<and> status (run example_env [example_fmt, example_x, example_misplaced]) \<noteq> Done"
proof -
  let ?s = "\<lparr>heap = [\<lparr>Path = ''beta.example/bar'', Version = ''1.2.0'',
                     Dir = ''/cache/bar@v1.2.0'', ReplacePath = [], Deps = fmempty\<rparr>,
                    \<lparr>Path = ''alpha.example/foo'', Version = [],
                     Dir = ''/src/vendor/foo'', ReplacePath = ''./vendor/foo'',
                     Deps = fmempty\<rparr>],
            modules = fmupd ''alpha.example/foo'' 1 (fmupd ''beta.example/bar'' 0 fmempty)\<rparr>"
  have w: "walk init_state [example_fmt, example_x, example_misplaced] = Inr ?s"
    by (simp add: example_fmt_def example_x_def example_beta_def example_misplaced_def
        init_state_def post_def isBuiltin_def pkgErrors_def lookup_or_create_def new_Module_def
        TrimPrefix_def HasPrefix_def add_import_def Let_def)
  have o: "range_order (ord_modules example_env)"
    using valid_example_env by (simp add: valid_orders_def)
  have l: "fmlookup (modules ?s) ''alpha.example/foo'' = Some 1" by simp
  have x: "IsExternal (heap ?s ! 1)" by (simp add: IsExternal_def HasPrefix_def)
  have n: "ReplacePath (heap ?s ! 1) \<noteq> []" by simp
  have h: "hd (ReplacePath (heap ?s ! 1)) = CHR ''.''" by simp
  have j: "path_Join example_env ''third_party/gopkgs'' ''alpha.example/foo''
             = ''third_party/gopkgs/'' @ ''alpha.example/foo''"
    by (simp add: example_env_def)
  have m: "ReplacePath (heap ?s ! 1) \<noteq> ''./third_party/gopkgs/'' @ ''alpha.example/foo''"
    by simp
  have 1: "status (run example_env [example_fmt, example_x, example_misplaced]) \<noteq> Done"
    using run_at_local_replace_path [OF w o l x n h j] m by blast
  have 2: "run example_env [example_fmt, example_x, example_misplaced]
     = \<lparr>files = [],
        status = Exit1 (''replace points at //./vendor/foo, expected it to point at ''
                        @ ''//third_party/gopkgs/alpha.example/foo'' @ nl)\<rparr>"
    by code_simp
  have 3: "run example_env [example_fmt, example_x, example_vendored]
     = \<lparr>files = files (run example_env [example_fmt, example_x]), status = Done\<rparr>"
    by code_simp
  have 4: "length (files (run example_env [example_fmt, example_x])) = 1"
    by code_simp
  from 1 2 3 4 show ?thesis by blast
qed

text \<open>
  Claim C8. Take a run whose walk has ended, and in it a visited package of a module that
  imports a package of another module. However many packages of the importer import that
  package, however often, and whatever else the walk handles in between: the registry holds
  the importer and the imported module, the importer's \<open>Deps\<close> holds at the imported module
  a set with the package path in it, and every \<open>range\<close> over that set yields the path once.
  The path stands in the importer's dependency list once for each module it is imported
  from (\<open>pkg_edges\<close> are the imports of a package, by module), so once when a package path
  is owned by one module; that list is what the descriptor prints, one line for each element; and
  when the run ends with success and the importer is external and not vendored, the run has
  written that descriptor for the importer.
\<close>

theorem dependency_edges_are_sets:
  assumes "walk init_state pkgs = Inr s" and "valid_orders e"
    and "pkg \<in> set pkgs" and "\<not> isBuiltin pkg" and "pkg_Module pkg = Some pm"
    and "(ip, dep) \<in> set (pkg_Imports pkg)" and "\<not> isBuiltin dep"
    and "pkg_Module dep = Some dm" and "mod_Path dm \<noteq> mod_Path pm"
  shows "\<exists>a b S.
      fmlookup (modules s) (mod_Path pm) = Some a
      \<and> fmlookup (modules s) (mod_Path dm) = Some b
      \<and> fmlookup (Deps (heap s ! a)) b = Some S
      \<and> pkg_PkgPath dep |\<in>| S
      \<and> count_list (ord_pkgs e (mod_Path pm) b (fset S)) (pkg_PkgPath dep) = 1
      \<and> count_list (Imports e (heap s ! a)) (pkg_PkgPath dep)
          = card {d. (mod_Path pm, d, pkg_PkgPath dep) \<in> \<Union> (pkg_edges ` set pkgs)}
      \<and> (owned_by_one_module pkgs \<longrightarrow>
            count_list (Imports e (heap s ! a)) (pkg_PkgPath dep) = 1)
      \<and> (\<forall>data. Execute e (heap s ! a) = Inr data \<longrightarrow>
            (\<exists>before. data = before @ ''  deps = with platform.third_party; [''
               @ concat (map (\<lambda>p. nl @ ''    gopkgs.'' @ NixAttr (quote_other e) p)
                          (Imports e (heap s ! a)))
               @ nl @ ''  ];'' @ nl @ ''}'' @ nl))
      \<and> (status (run e pkgs) = Done \<and> IsExternal (heap s ! a)
           \<and> \<not> (ReplacePath (heap s ! a) \<noteq> [] \<and> hd (ReplacePath (heap s ! a)) = CHR ''.'')
           \<longrightarrow> (\<exists>data. Execute e (heap s ! a) = Inr data
                  \<and> (path_Join e ''third_party/gopkgs'' (mod_Path pm), ''default.nix'', data)
                      \<in> set (files (run e pkgs))))"
proof -
  let ?p = "mod_Path pm" and ?d = "mod_Path dm" and ?q = "pkg_PkgPath dep"
  have wf: "wf_state s" using wf_walk [OF wf_init assms(1)] .
  have ed: "edges s = \<Union> (pkg_edges ` set pkgs)" using edges_of_walk [OF assms(1)] .
  from walk_registers [OF assms(1,3,4,5)] obtain a
    where a: "fmlookup (modules s) ?p = Some a" by blast
  have pa: "Path (heap s ! a) = ?p" using wf_stateD(2) [OF wf a] .
  have "(?p, ?d, ?q) \<in> pkg_edges pkg"
    using import_in_pkg_edges [OF assms(4,5,6,7,8,9)] .
  with assms(3) have e: "(?p, ?d, ?q) \<in> edges s" unfolding ed by blast
  from edge_entry [OF wf a e] obtain b S where b: "fmlookup (modules s) ?d = Some b"
    and S: "fmlookup (Deps (heap s ! a)) b = Some S" and q: "?q |\<in>| S" by blast
  from assms(2) have "range_order (ord_pkgs e ?p b)" by (simp add: valid_orders_def)
  from range_orderD [OF this, of "fset S"]
  have "set (ord_pkgs e ?p b (fset S)) = fset S" and "distinct (ord_pkgs e ?p b (fset S))"
    by simp_all
  with q have c1: "count_list (ord_pkgs e ?p b (fset S)) ?q = 1"
    using count_distinct_list [of "ord_pkgs e ?p b (fset S)" ?q] by (simp add: count_mset)
  have c5: "count_list (Imports e (heap s ! a)) ?q
              = card {d. (?p, d, ?q) \<in> \<Union> (pkg_edges ` set pkgs)}"
    using Imports_count_edges [OF wf assms(2) a, of ?q] by (simp add: count_mset ed)
  have c2: "count_list (Imports e (heap s ! a)) ?q = 1" if o: "owned_by_one_module pkgs"
  proof -
    have "{d. (?p, d, ?q) \<in> edges s} = {?d}"
    proof (rule set_eqI)
      fix d
      show "d \<in> {d. (?p, d, ?q) \<in> edges s} \<longleftrightarrow> d \<in> {?d}"
      proof
        assume "d \<in> {d. (?p, d, ?q) \<in> edges s}"
        then obtain pkg' where "pkg' \<in> set pkgs" and "(?p, d, ?q) \<in> pkg_edges pkg'"
          unfolding ed by blast
        from owned_one_target [OF o this(1) assms(3) this(2) \<open>(?p, ?d, ?q) \<in> pkg_edges pkg\<close>]
        show "d \<in> {?d}" by simp
      next
        assume "d \<in> {?d}"
        with e show "d \<in> {d. (?p, d, ?q) \<in> edges s}" by simp
      qed
    qed
    with Imports_count_edges [OF wf assms(2) a, of ?q] show ?thesis
      by (simp add: count_mset)
  qed
  have mem: "?q \<in> set (Imports e (heap s ! a))"
  proof -
    have "{d. (?p, d, ?q) \<in> edges s} \<noteq> {}" using e by blast
    moreover have "finite {d. (?p, d, ?q) \<in> edges s}"
    proof (rule finite_subset)
      show "{d. (?p, d, ?q) \<in> edges s} \<subseteq> fmdom' (modules s)"
        using edge_entry [OF wf a] by (auto intro: fmdom'I)
    qed simp
    ultimately have "0 < card {d. (?p, d, ?q) \<in> edges s}" by (simp add: card_gt_0_iff)
    with Imports_count_edges [OF wf assms(2) a, of ?q]
    have "0 < count (mset (Imports e (heap s ! a))) ?q" by simp
    then show ?thesis by (simp add: count_greater_zero_iff)
  qed
  then have ne: "Imports e (heap s ! a) \<noteq> []" by auto
  have c3: "\<forall>data. Execute e (heap s ! a) = Inr data \<longrightarrow>
            (\<exists>before. data = before @ ''  deps = with platform.third_party; [''
               @ concat (map (\<lambda>p. nl @ ''    gopkgs.'' @ NixAttr (quote_other e) p)
                          (Imports e (heap s ! a)))
               @ nl @ ''  ];'' @ nl @ ''}'' @ nl)"
    using Execute_dependency_list [OF _ ne] by blast
  have c4: "\<exists>data. Execute e (heap s ! a) = Inr data
                  \<and> (path_Join e ''third_party/gopkgs'' ?p, ''default.nix'', data)
                      \<in> set (files (run e pkgs))"
    if d: "status (run e pkgs) = Done" and x: "IsExternal (heap s ! a)"
      and l: "\<not> (ReplacePath (heap s ! a) \<noteq> [] \<and> hd (ReplacePath (heap s ! a)) = CHR ''.'')"
  proof -
    from assms(2) have ro: "range_order (ord_modules e)" by (simp add: valid_orders_def)
    have r: "run e pkgs = emit_loop e s (sorted_list_of_set (fmdom' (modules s))) []"
      using assms(1) emit_paths [OF ro] by (simp add: run_def)
    have "?p \<in> set (sorted_list_of_set (fmdom' (modules s)))" using a by (simp add: fmdom'I)
    from emit_loop_done_files [OF d [unfolded r] this a x l] show ?thesis
      by (simp add: r pa)
  qed
  have c2': "owned_by_one_module pkgs \<longrightarrow>
            count_list (Imports e (heap s ! a)) (pkg_PkgPath dep) = 1"
    using c2 by (rule impI)
  have c4': "status (run e pkgs) = Done \<and> IsExternal (heap s ! a)
           \<and> \<not> (ReplacePath (heap s ! a) \<noteq> [] \<and> hd (ReplacePath (heap s ! a)) = CHR ''.'')
           \<longrightarrow> (\<exists>data. Execute e (heap s ! a) = Inr data
                  \<and> (path_Join e ''third_party/gopkgs'' (mod_Path pm), ''default.nix'', data)
                      \<in> set (files (run e pkgs)))"
    using c4 by (intro impI) (elim conjE)
  show ?thesis
    by (rule exI [of _ a], rule exI [of _ b], rule exI [of _ S])
      (intro conjI a b S q c1 c5 c2' c3 c4')
qed

theorem dependency_edges_are_sets_witness:
  "(\<exists>s a. walk init_state
             [example_fmt, example_x, example_y, example_a, example_c, example_b] = Inr s
      \<and> fmlookup (modules s) ''alpha.example/foo'' = Some a
      \<and> count_list (Imports example_env (heap s ! a)) ''beta.example/bar/x'' = 1
      \<and> Imports example_env (heap s ! a) = [''beta.example/bar/x'', ''beta.example/bar/y''])
   \<and> files (run example_env
              [example_fmt, example_x, example_y, example_a, example_c, example_b]) ! 0
       = (''third_party/gopkgs/alpha.example/foo'', ''default.nix'',
          ''# generator //tools/mud (DO NOT EDIT)'' @ nl
          @ ''{ platform, pkgs, ... }:'' @ nl
          @ nl
          @ ''platform.buildGo.external rec {'' @ nl
          @ ''  path = '' @ dq @ ''alpha.example/foo'' @ dq @ '';'' @ nl
          @ ''  src = platform.lib.fetchGoModule {'' @ nl
          @ ''    inherit path;'' @ nl
          @ ''    version = '' @ dq @ ''0.3.0'' @ dq @ '';'' @ nl
          @ ''    sha256 = '' @ dq @ ''0digest'' @ dq @ '';'' @ nl
          @ ''  };'' @ nl
          @ ''  deps = with platform.third_party; ['' @ nl
          @ ''    gopkgs.'' @ dq @ ''beta.example'' @ dq @ ''.bar.x'' @ nl
          @ ''    gopkgs.'' @ dq @ ''beta.example'' @ dq @ ''.bar.y'' @ nl
          @ ''  ];'' @ nl
          @ ''}'' @ nl)"
proof -
  let ?pkgs = "[example_fmt, example_x, example_y, example_a, example_c, example_b]"
  have "case walk init_state ?pkgs of
          Inl err \<Rightarrow> False
        | Inr s \<Rightarrow> fmlookup (modules s) ''alpha.example/foo'' = Some 1
            \<and> Imports example_env (heap s ! 1)
                = [''beta.example/bar/x'', ''beta.example/bar/y'']"
    by code_simp
  then obtain s where w: "walk init_state ?pkgs = Inr s"
    and l: "fmlookup (modules s) ''alpha.example/foo'' = Some 1"
    and i: "Imports example_env (heap s ! 1) = [''beta.example/bar/x'', ''beta.example/bar/y'']"
    by (cases "walk init_state ?pkgs") auto
  have m: "example_a \<in> set ?pkgs" by simp
  have nb: "\<not> isBuiltin example_a" by (simp add: example_defs isBuiltin_def)
  have pm: "pkg_Module example_a = Some example_alpha" by (simp add: example_a_def)
  have im: "(''beta.example/bar/x'', example_x) \<in> set (pkg_Imports example_a)"
    by (simp add: example_a_def)
  have nd: "\<not> isBuiltin example_x" by (simp add: example_defs isBuiltin_def)
  have dm: "pkg_Module example_x = Some example_beta" by (simp add: example_x_def)
  have ne: "mod_Path example_beta \<noteq> mod_Path example_alpha" by (simp add: example_defs)
  have o: "owned_by_one_module ?pkgs"
    by (simp add: owned_by_one_module_def example_defs)
  from dependency_edges_are_sets [OF w valid_example_env m nb pm im nd dm ne] o l
  have "count_list (Imports example_env (heap s ! 1)) (pkg_PkgPath example_x) = 1"
    by (auto simp: example_alpha_def)
  then have c: "count_list (Imports example_env (heap s ! 1)) ''beta.example/bar/x'' = 1"
    by (simp add: example_x_def)
  have f: "files (run example_env ?pkgs) ! 0
       = (''third_party/gopkgs/alpha.example/foo'', ''default.nix'',
          ''# generator //tools/mud (DO NOT EDIT)'' @ nl
          @ ''{ platform, pkgs, ... }:'' @ nl
          @ nl
          @ ''platform.buildGo.external rec {'' @ nl
          @ ''  path = '' @ dq @ ''alpha.example/foo'' @ dq @ '';'' @ nl
          @ ''  src = platform.lib.fetchGoModule {'' @ nl
          @ ''    inherit path;'' @ nl
          @ ''    version = '' @ dq @ ''0.3.0'' @ dq @ '';'' @ nl
          @ ''    sha256 = '' @ dq @ ''0digest'' @ dq @ '';'' @ nl
          @ ''  };'' @ nl
          @ ''  deps = with platform.third_party; ['' @ nl
          @ ''    gopkgs.'' @ dq @ ''beta.example'' @ dq @ ''.bar.x'' @ nl
          @ ''    gopkgs.'' @ dq @ ''beta.example'' @ dq @ ''.bar.y'' @ nl
          @ ''  ];'' @ nl
          @ ''}'' @ nl)"
    by code_simp
  from w l c i f show ?thesis by blast
qed

text \<open>
  Claim C1. Take two runs over the same graph: the walks visit the same packages in any two
  orders, each package with its imports in any order, and every \<open>range\<close> over a map yields
  its keys in any order in either run; what the runs take from outside (the hashing, the
  filesystem, the library) is the same, the loader reports one record for a module, and
  neither walk dereferences a nil pointer. Then the runs write the same files with the same
  bytes in the same sequence, and when the walk ends without error the runs end alike. The
  files are written in ascending order of the module paths, each module once, and every
  dependency list is in ascending order. When a run ends with success, its files are the
  descriptors of the external modules of the registry that carry no local replace path,
  one for each, in ascending order of the module paths.
\<close>

theorem output_is_a_function_of_the_graph:
  assumes "valid_orders e"
    and "valid_orders (e\<lparr>ord_modules := f, ord_deps := g, ord_pkgs := h\<rparr>)"
    and "same_graph pkgs pkgs'" and "one_record_per_module pkgs"
    and "walk init_state pkgs \<noteq> Inl NilDereference"
    and "walk init_state pkgs' \<noteq> Inl NilDereference"
  shows "files (run (e\<lparr>ord_modules := f, ord_deps := g, ord_pkgs := h\<rparr>) pkgs')
           = files (run e pkgs)
     \<and> ((\<exists>s. walk init_state pkgs = Inr s)
          \<longrightarrow> run (e\<lparr>ord_modules := f, ord_deps := g, ord_pkgs := h\<rparr>) pkgs' = run e pkgs)
     \<and> (\<exists>ps. sorted ps \<and> distinct ps
           \<and> map fst (files (run e pkgs)) = map (path_Join e ''third_party/gopkgs'') ps)
     \<and> (\<forall>s p a. walk init_state pkgs = Inr s \<and> fmlookup (modules s) p = Some a
           \<longrightarrow> sorted (Imports e (heap s ! a))
               \<and> Imports e (heap s ! a)
                  = Imports (e\<lparr>ord_modules := f, ord_deps := g, ord_pkgs := h\<rparr>) (heap s ! a))
     \<and> (\<forall>s. walk init_state pkgs = Inr s \<and> status (run e pkgs) = Done
           \<longrightarrow> list_all2 (descriptor_of e s) (files (run e pkgs))
                 (filter (has_descriptor s) (sorted_list_of_set (fmdom' (modules s)))))"
proof -
  let ?e' = "e\<lparr>ord_modules := f, ord_deps := g, ord_pkgs := h\<rparr>"
  note oa = walk_outcomes_agree [OF assms(3,5,6)]
  have eq: "run ?e' pkgs' = run e pkgs" if w: "walk init_state pkgs = Inr s" for s
  proof -
    from oa w obtain s' where w': "walk init_state pkgs' = Inr s'" by blast
    from emit_agree [OF assms(1,2) valid_orders_update(2,1,3,4) w w' assms(3,4)]
    show ?thesis by (simp add: run_def w w')
  qed
  have 1: "files (run ?e' pkgs') = files (run e pkgs)"
  proof (cases "walk init_state pkgs")
    case (Inl err)
    with oa obtain err' where "walk init_state pkgs' = Inl err'"
      by (cases "walk init_state pkgs'") auto
    with Inl show ?thesis by (simp add: run_def)
  next
    case (Inr s)
    from eq [OF this] show ?thesis by simp
  qed
  have 2: "(\<exists>s. walk init_state pkgs = Inr s) \<longrightarrow> run ?e' pkgs' = run e pkgs"
    using eq by blast
  have 3: "\<exists>ps. sorted ps \<and> distinct ps
           \<and> map fst (files (run e pkgs)) = map (path_Join e ''third_party/gopkgs'') ps"
  proof (cases "walk init_state pkgs")
    case (Inl err)
    then have "map fst (files (run e pkgs)) = map (path_Join e ''third_party/gopkgs'') []"
      by (simp add: run_def)
    then show ?thesis by (intro exI [of _ "[]"]) simp
  next
    case (Inr s)
    from assms(1) have ro: "range_order (ord_modules e)" by (simp add: valid_orders_def)
    have r: "run e pkgs = emit_loop e s (sorted_list_of_set (fmdom' (modules s))) []"
      using Inr emit_paths [OF ro] by (simp add: run_def)
    from emit_loop_sorted_files [OF wf_walk [OF wf_init Inr], 
        of "sorted_list_of_set (fmdom' (modules s))" e "[]"]
    show ?thesis unfolding r by auto
  qed
  have 4: "\<forall>s p a. walk init_state pkgs = Inr s \<and> fmlookup (modules s) p = Some a
           \<longrightarrow> sorted (Imports e (heap s ! a))
               \<and> Imports e (heap s ! a) = Imports ?e' (heap s ! a)"
  proof (intro allI impI, elim conjE)
    fix s p a assume w: "walk init_state pkgs = Inr s" and l: "fmlookup (modules s) p = Some a"
    have wf: "wf_state s" using wf_walk [OF wf_init w] .
    from Imports_agree [OF wf wf assms(1,2) refl l l] sorted_Imports [of e "heap s ! a"]
    show "sorted (Imports e (heap s ! a))
               \<and> Imports e (heap s ! a) = Imports ?e' (heap s ! a)" by simp
  qed
  have 5: "\<forall>s. walk init_state pkgs = Inr s \<and> status (run e pkgs) = Done
           \<longrightarrow> list_all2 (descriptor_of e s) (files (run e pkgs))
                 (filter (has_descriptor s) (sorted_list_of_set (fmdom' (modules s))))"
    using run_done_files [OF _ assms(1)] by blast
  from 1 2 3 4 5 show ?thesis by (intro conjI)
qed

theorem output_is_a_function_of_the_graph_witness:
  "run example_env_descending
     [example_y, example_x, example_fmt, example_a, example_b_reordered, example_c]
     = run example_env [example_fmt, example_x, example_y, example_a, example_c, example_b]
   \<and> status (run example_env
               [example_fmt, example_x, example_y, example_a, example_c, example_b]) = Done
   \<and> map fst (files (run example_env
               [example_fmt, example_x, example_y, example_a, example_c, example_b]))
       = [''third_party/gopkgs/alpha.example/foo'', ''third_party/gopkgs/beta.example/bar'']"
proof -
  let ?pkgs = "[example_fmt, example_x, example_y, example_a, example_c, example_b]"
  let ?pkgs' = "[example_y, example_x, example_fmt, example_a, example_b_reordered, example_c]"
  have v: "valid_orders (example_env\<lparr>ord_modules := (\<lambda>S. rev (sorted_list_of_set S)),
                  ord_deps := (\<lambda>p S. rev (sorted_list_of_set S)),
                  ord_pkgs := (\<lambda>p d S. rev (sorted_list_of_set S))\<rparr>)"
    by (simp add: valid_orders_def range_order_def)
  have r: "same_package p p" for p by (simp add: same_package_def)
  have b: "same_package example_b example_b_reordered"
    by (auto simp: same_package_def example_b_def example_b_reordered_def)
  have g: "same_graph ?pkgs ?pkgs'"
    by (simp add: same_graph_def r b)
  have o: "one_record_per_module ?pkgs"
    by (simp add: one_record_per_module_def example_defs)
  have "case walk init_state ?pkgs of Inl err \<Rightarrow> False | Inr s \<Rightarrow> True" by code_simp
  then have w: "walk init_state ?pkgs \<noteq> Inl NilDereference"
    by (cases "walk init_state ?pkgs") auto
  have "case walk init_state ?pkgs' of Inl err \<Rightarrow> False | Inr s \<Rightarrow> True" by code_simp
  then have w': "walk init_state ?pkgs' \<noteq> Inl NilDereference"
    by (cases "walk init_state ?pkgs'") auto
  from w have ex: "\<exists>s. walk init_state ?pkgs = Inr s"
    using \<open>case walk init_state ?pkgs of Inl err \<Rightarrow> False | Inr s \<Rightarrow> True\<close>
    by (cases "walk init_state ?pkgs") auto
  from output_is_a_function_of_the_graph [OF valid_example_env v g o w w'] ex
  have 1: "run example_env_descending ?pkgs' = run example_env ?pkgs"
    unfolding example_env_descending_def by blast
  have 2: "status (run example_env ?pkgs) = Done" by code_simp
  have 3: "map fst (files (run example_env ?pkgs))
       = [''third_party/gopkgs/alpha.example/foo'', ''third_party/gopkgs/beta.example/bar'']"
    by code_simp
  from 1 2 3 show ?thesis by (intro conjI)
qed

end
